theory Spec2Isabelle
  imports Main "HOL-Library.Word"
begin

unbundle bit_operations_syntax

section \<open>Handles (include/anamnesis.h, src/anamnesis.c)\<close>

text \<open>
  \<^verbatim>\<open>typedef uint64_t AnamHandle;\<close>  A handle packs a 16-bit generation (bits 63..48),
  a 45-bit address (bits 47..3) and a 3-bit state (bits 2..0).  Pointers are 64-bit
  values (\<^verbatim>\<open>uintptr_t\<close>), \<^verbatim>\<open>size_t\<close> is 64 bits wide, and all arithmetic on
  them wraps modulo \<open>2 ^ 64\<close>.
\<close>

type_synonym AnamHandle = "64 word"

definition ANAM_NULL :: AnamHandle where
  "ANAM_NULL = 0"

definition ANAM_STATE_FREE :: "8 word" where
  "ANAM_STATE_FREE = 0"

definition ANAM_STATE_LIVE :: "8 word" where
  "ANAM_STATE_LIVE = 1"

definition ANAM_STATE_QUARANTINE :: "8 word" where
  "ANAM_STATE_QUARANTINE = 2"

definition ANAM_STATE_LOCKED :: "8 word" where
  "ANAM_STATE_LOCKED = 4"

definition ANAM_ADDR_MASK :: "64 word" where
  "ANAM_ADDR_MASK = 0x0000FFFFFFFFFFF8"

definition ANAM_GEN_MASK :: "64 word" where
  "ANAM_GEN_MASK = 0xFFFF000000000000"

definition ANAM_STATE_MASK :: "64 word" where
  "ANAM_STATE_MASK = 0x0000000000000007"

definition encode_handle :: "16 word \<Rightarrow> 64 word \<Rightarrow> 8 word \<Rightarrow> AnamHandle" where
  "encode_handle gen addr state =
     push_bit 48 (ucast gen) OR (addr AND ANAM_ADDR_MASK) OR (ucast state AND ANAM_STATE_MASK)"

definition decode_addr :: "AnamHandle \<Rightarrow> 64 word" where
  "decode_addr handle = handle AND ANAM_ADDR_MASK"

definition decode_gen :: "AnamHandle \<Rightarrow> 16 word" where
  "decode_gen handle = ucast (drop_bit 48 handle)"

definition anam_generation :: "AnamHandle \<Rightarrow> 16 word" where
  "anam_generation handle = ucast (drop_bit 48 handle)"

definition anam_state :: "AnamHandle \<Rightarrow> 8 word" where
  "anam_state handle = ucast (handle AND 0x7)"

definition anam_is_null :: "AnamHandle \<Rightarrow> bool" where
  "anam_is_null handle = (handle = ANAM_NULL)"

section \<open>Pool (src/anamnesis.c)\<close>

text \<open>
  The backing buffer is modelled by typed field maps, one per kind of object stored in it:
  the two fields of \<^verbatim>\<open>struct SlotHeader\<close>, keyed by the address of the header, and the
  user payload of a slot, keyed by the user pointer.  \<open>'p\<close> is the type of what callers
  keep in a payload; \<^verbatim>\<open>memset(user_ptr, 0, slot_size)\<close> stores its zero.  Objects at
  different addresses are different objects: an access through an address that is not a
  slot boundary reads and writes a field of its own and never bytes of a neighbouring
  header or payload.  That is what the code does as long as headers are reached through
  slot boundaries; the pool over the bytes of the buffer, where a handle forged to the
  interior of a slot aliases a header, is embedded further down and related to this one.
\<close>

record 'p Memory =
  hdr_next :: "64 word \<Rightarrow> AnamHandle"
  hdr_generation :: "64 word \<Rightarrow> 16 word"
  payload :: "64 word \<Rightarrow> 'p"

text \<open>\<^verbatim>\<open>struct AnamPool\<close>, together with the contents of the memory it owns.\<close>

record 'p AnamPool = "'p Memory" +
  slot_size :: "64 word"
  slot_stride :: "64 word"
  slot_stride_mask :: "64 word"
  slot_count :: "64 word"
  alignment :: "64 word"
  zero_on_alloc :: bool
  zero_on_release :: bool
  memory :: "64 word"
  slots_base :: "64 word"
  free_head :: AnamHandle
  slots_free :: "64 word"
  alloc_count :: "64 word"
  release_count :: "64 word"
  anamnesis_count :: "64 word"
  generation_max :: "16 word"

record AnamPoolConfig =
  cfg_slot_size :: "64 word"
  cfg_slot_count :: "64 word"
  cfg_alignment :: "64 word"
  cfg_zero_on_alloc :: bool
  cfg_zero_on_release :: bool

definition ANAM_POOL_DEFAULT :: AnamPoolConfig where
  "ANAM_POOL_DEFAULT =
     \<lparr>cfg_slot_size = 64, cfg_slot_count = 1024, cfg_alignment = 8,
      cfg_zero_on_alloc = False, cfg_zero_on_release = False\<rparr>"

text \<open>
  \<^verbatim>\<open>sizeof(SlotHeader)\<close>: an 8-byte atomic handle and a 2-byte atomic generation, padded to
  the alignment of the handle.
\<close>

definition sizeof_SlotHeader :: "64 word" where
  "sizeof_SlotHeader = 16"

definition get_header :: "64 word \<Rightarrow> 64 word" where
  "get_header user_ptr = user_ptr - sizeof_SlotHeader"

definition get_user_ptr :: "64 word \<Rightarrow> 64 word" where
  "get_user_ptr header = header + sizeof_SlotHeader"

definition slot_from_index :: "('p, 'z) AnamPool_scheme \<Rightarrow> 64 word \<Rightarrow> 64 word" where
  "slot_from_index pool index = slots_base pool + index * slot_stride pool"

text \<open>The compile-time switch \<^verbatim>\<open>ANAM_STRICT_VALIDATION\<close>; no build defines it.\<close>

definition ANAM_STRICT_VALIDATION :: bool where
  "ANAM_STRICT_VALIDATION = False"

definition in_pool :: "('p, 'z) AnamPool_scheme \<Rightarrow> 64 word \<Rightarrow> bool" where
  "in_pool pool p =
     (let base = slots_base pool;
          end = base + slot_count pool * slot_stride pool
      in if p < base \<or> p \<ge> end then False
         else if ANAM_STRICT_VALIDATION then
           (let off = p - base
            in if slot_stride_mask pool \<noteq> 0 then off AND slot_stride_mask pool = 0
               else off mod slot_stride pool = 0)
         else True)"

definition align_up :: "64 word \<Rightarrow> 64 word \<Rightarrow> 64 word" where
  "align_up v a = (v + a - 1) AND NOT (a - 1)"

text \<open>
  The loop of \<^verbatim>\<open>anam_pool_create\<close> that pushes the slots onto the free list,
  \<^verbatim>\<open>for (i = slot_count; i > 0; i--)\<close>, the counter being the argument.
\<close>

fun anam_pool_create_loop :: "nat \<Rightarrow> 'p AnamPool \<Rightarrow> 'p AnamPool" where
  "anam_pool_create_loop 0 pool = pool"
| "anam_pool_create_loop (Suc i) pool =
     (let user_ptr = slot_from_index pool (of_nat i);
          header = get_header user_ptr;
          pool = pool\<lparr>hdr_generation := (hdr_generation pool)(header := 0)\<rparr>;
          old_head = free_head pool;
          new_handle = encode_handle 0 user_ptr ANAM_STATE_FREE;
          pool = pool\<lparr>hdr_next := (hdr_next pool)(header := old_head)\<rparr>;
          pool = pool\<lparr>free_head := new_handle\<rparr>
      in anam_pool_create_loop i pool)"

text \<open>
  \<^verbatim>\<open>anam_pool_create\<close>.  The environment decides three things, which are arguments here:
  whether \<^verbatim>\<open>calloc\<close> of the pool structure succeeds, the address \<^verbatim>\<open>aligned_alloc\<close>
  returns (0 for \<^verbatim>\<open>NULL\<close>), and the contents of that uninitialised buffer.  A \<^verbatim>\<open>NULL\<close>
  configuration pointer is \<open>None\<close>; the result \<open>None\<close> is the \<^verbatim>\<open>NULL\<close> pool.
\<close>

definition anam_pool_create ::
  "AnamPoolConfig option \<Rightarrow> bool \<Rightarrow> 64 word \<Rightarrow> 'p Memory \<Rightarrow> 'p AnamPool option" where
  "anam_pool_create config calloc_ok mem raw =
     (let cfg = (case config of None \<Rightarrow> ANAM_POOL_DEFAULT | Some c \<Rightarrow> c) in
      if cfg_slot_size cfg = 0 \<or> cfg_slot_count cfg = 0 then None else
      let cfg = (if cfg_alignment cfg = 0 then cfg\<lparr>cfg_alignment := 8\<rparr> else cfg) in
      if cfg_alignment cfg AND (cfg_alignment cfg - 1) \<noteq> 0 then None else
      if cfg_alignment cfg < 8 then None else
      if \<not> calloc_ok then None else
      let header_size = align_up sizeof_SlotHeader (cfg_alignment cfg);
          user_size = align_up (cfg_slot_size cfg) (cfg_alignment cfg);
          stride = align_up (header_size + user_size) 8;
          total = stride * cfg_slot_count cfg + cfg_alignment cfg;
          total = align_up total (cfg_alignment cfg)
      in if mem = 0 then None else
      let base = align_up (mem + sizeof_SlotHeader) (cfg_alignment cfg);
          pool = \<lparr>hdr_next = hdr_next raw, hdr_generation = hdr_generation raw,
                  payload = payload raw,
                  slot_size = cfg_slot_size cfg,
                  slot_stride = stride,
                  slot_stride_mask = (if stride AND (stride - 1) = 0 then stride - 1 else 0),
                  slot_count = cfg_slot_count cfg,
                  alignment = cfg_alignment cfg,
                  zero_on_alloc = cfg_zero_on_alloc cfg,
                  zero_on_release = cfg_zero_on_release cfg,
                  memory = mem,
                  slots_base = base,
                  free_head = ANAM_NULL,
                  slots_free = cfg_slot_count cfg,
                  alloc_count = 0, release_count = 0, anamnesis_count = 0,
                  generation_max = 0\<rparr>
      in Some (anam_pool_create_loop (unat (cfg_slot_count cfg)) pool))"

text \<open>
  The operations below are the code as one thread runs it with no other thread active.
  A compare-and-swap then finds the value that was just loaded and succeeds, so each
  retry loop around one runs its body once; a spurious failure of a weak
  compare-and-swap repeats the same body on the same state.  The pool argument is an
  existing pool: the \<^verbatim>\<open>!pool\<close> guards return before any state is read.
\<close>

definition anam_alloc :: "'p::zero AnamPool \<Rightarrow> AnamHandle \<times> 'p AnamPool" where
  "anam_alloc pool =
     (let old_head = free_head pool in
      if anam_is_null old_head then (ANAM_NULL, pool) else
      let user_ptr = decode_addr old_head;
          header = get_header user_ptr;
          new_head = hdr_next pool header;
          pool = pool\<lparr>free_head := new_head\<rparr>;
          gen = hdr_generation pool header;
          max_gen = generation_max pool;
          pool = (if gen > max_gen then pool\<lparr>generation_max := gen\<rparr> else pool);
          pool = pool\<lparr>hdr_next := (hdr_next pool)(header := ANAM_NULL)\<rparr>;
          pool = pool\<lparr>slots_free := slots_free pool - 1\<rparr>;
          pool = pool\<lparr>alloc_count := alloc_count pool + 1\<rparr>;
          pool = (if zero_on_alloc pool
                  then pool\<lparr>payload := (payload pool)(user_ptr := 0)\<rparr> else pool)
      in (encode_handle gen user_ptr ANAM_STATE_LIVE, pool))"

definition anam_release :: "'p::zero AnamPool \<Rightarrow> AnamHandle \<Rightarrow> bool \<times> 'p AnamPool" where
  "anam_release pool handle =
     (if anam_is_null handle then (False, pool) else
      if anam_state handle \<noteq> ANAM_STATE_LIVE
      then (False, pool\<lparr>anamnesis_count := anamnesis_count pool + 1\<rparr>) else
      let user_ptr = decode_addr handle in
      if \<not> in_pool pool user_ptr
      then (False, pool\<lparr>anamnesis_count := anamnesis_count pool + 1\<rparr>) else
      let header = get_header user_ptr;
          claimed_gen = decode_gen handle;
          true_gen = hdr_generation pool header
      in if claimed_gen \<noteq> true_gen
         then (False, pool\<lparr>anamnesis_count := anamnesis_count pool + 1\<rparr>) else
      let new_gen = true_gen + 1;
          pool = pool\<lparr>hdr_generation := (hdr_generation pool)(header := new_gen)\<rparr>;
          pool = (if zero_on_release pool
                  then pool\<lparr>payload := (payload pool)(user_ptr := 0)\<rparr> else pool);
          old_head = free_head pool;
          pool = pool\<lparr>hdr_next := (hdr_next pool)(header := old_head)\<rparr>;
          new_handle = encode_handle new_gen user_ptr ANAM_STATE_FREE;
          pool = pool\<lparr>free_head := new_handle\<rparr>;
          pool = pool\<lparr>slots_free := slots_free pool + 1\<rparr>;
          pool = pool\<lparr>release_count := release_count pool + 1\<rparr>
      in (True, pool))"

text \<open>\<^verbatim>\<open>anam_get\<close> returns the payload pointer, 0 for \<^verbatim>\<open>NULL\<close>.\<close>

definition anam_get :: "'p AnamPool \<Rightarrow> AnamHandle \<Rightarrow> 64 word \<times> 'p AnamPool" where
  "anam_get pool handle =
     (if anam_is_null handle then (0, pool) else
      if anam_state handle \<noteq> ANAM_STATE_LIVE
      then (0, pool\<lparr>anamnesis_count := anamnesis_count pool + 1\<rparr>) else
      let user_ptr = decode_addr handle in
      if \<not> in_pool pool user_ptr
      then (0, pool\<lparr>anamnesis_count := anamnesis_count pool + 1\<rparr>) else
      let header = get_header user_ptr;
          claimed_gen = decode_gen handle;
          true_gen = hdr_generation pool header
      in if claimed_gen \<noteq> true_gen
         then (0, pool\<lparr>anamnesis_count := anamnesis_count pool + 1\<rparr>)
         else (user_ptr, pool))"

definition anam_validate :: "'p AnamPool \<Rightarrow> AnamHandle \<Rightarrow> bool \<times> 'p AnamPool" where
  "anam_validate pool handle = (let (p, pool) = anam_get pool handle in (p \<noteq> 0, pool))"

record AnamPoolStats =
  st_slot_count :: "64 word"
  st_slots_free :: "64 word"
  st_slots_live :: "64 word"
  st_alloc_count :: "64 word"
  st_release_count :: "64 word"
  st_anamnesis_count :: "64 word"
  st_generation_max :: "16 word"

definition anam_pool_stats :: "'p AnamPool \<Rightarrow> AnamPoolStats" where
  "anam_pool_stats pool =
     \<lparr>st_slot_count = slot_count pool,
      st_slots_free = slots_free pool,
      st_slots_live = slot_count pool - slots_free pool,
      st_alloc_count = alloc_count pool,
      st_release_count = release_count pool,
      st_anamnesis_count = anamnesis_count pool,
      st_generation_max = generation_max pool\<rparr>"

section \<open>Queue (anamnesis_queue.c)\<close>

text \<open>
  \<^verbatim>\<open>struct QueueNode\<close> followed by the item bytes (\<^verbatim>\<open>node_data\<close>): the payload of a
  slot of the queue's private pool.  An item is a value of type \<open>'a\<close>, copied as a
  whole by \<^verbatim>\<open>memcpy\<close>.
\<close>

datatype 'a QueueNode = QueueNode (node_next: AnamHandle) (node_data: 'a)

instantiation QueueNode :: (zero) zero
begin

definition zero_QueueNode :: "'a QueueNode" where
  "zero_QueueNode = QueueNode 0 0"

instance ..

end

definition sizeof_QueueNode :: "64 word" where
  "sizeof_QueueNode = 8"

record 'a AnamQueue =
  item_size :: "64 word"
  capacity :: "64 word"
  node_size :: "64 word"
  pool :: "'a QueueNode AnamPool"
  head :: AnamHandle
  tail :: AnamHandle
  qlength :: "64 word"
  push_count :: "64 word"
  pop_count :: "64 word"
  push_fails :: "64 word"
  pop_fails :: "64 word"
  aba_prevented :: "64 word"

record AnamQueueConfig =
  cfg_item_size :: "64 word"
  cfg_capacity :: "64 word"

definition ANAM_QUEUE_DEFAULT :: AnamQueueConfig where
  "ANAM_QUEUE_DEFAULT = \<lparr>cfg_item_size = 64, cfg_capacity = 1024\<rparr>"

text \<open>Stores to \<^verbatim>\<open>node->next\<close> and to the item bytes of the node at address \<open>node\<close>.\<close>

definition store_node_next ::
  "'a QueueNode AnamPool \<Rightarrow> 64 word \<Rightarrow> AnamHandle \<Rightarrow> 'a QueueNode AnamPool" where
  "store_node_next pl node h =
     pl\<lparr>payload := (payload pl)(node := QueueNode h (node_data (payload pl node)))\<rparr>"

definition store_node_data ::
  "'a QueueNode AnamPool \<Rightarrow> 64 word \<Rightarrow> 'a \<Rightarrow> 'a QueueNode AnamPool" where
  "store_node_data pl node d =
     pl\<lparr>payload := (payload pl)(node := QueueNode (node_next (payload pl node)) d)\<rparr>"

text \<open>A \<^verbatim>\<open>NULL\<close> data pointer is \<open>None\<close>.\<close>

definition alloc_node :: "'a::zero AnamQueue \<Rightarrow> 'a option \<Rightarrow> AnamHandle \<times> 'a AnamQueue" where
  "alloc_node q data =
     (let (h, pl) = anam_alloc (pool q);
          q = q\<lparr>pool := pl\<rparr>
      in if anam_is_null h then (ANAM_NULL, q) else
      let (node, pl) = anam_get (pool q) h;
          pl = store_node_next pl node ANAM_NULL;
          pl = (case data of None \<Rightarrow> pl | Some d \<Rightarrow> store_node_data pl node d)
      in (h, q\<lparr>pool := pl\<rparr>))"

text \<open>
  \<^verbatim>\<open>anam_queue_create\<close>: the environment decides whether the two \<^verbatim>\<open>calloc\<close> calls
  succeed, the address of the pool's buffer and its initial contents.
\<close>

definition anam_queue_create ::
  "AnamQueueConfig option \<Rightarrow> bool \<Rightarrow> bool \<Rightarrow> 64 word \<Rightarrow> 'a QueueNode Memory
     \<Rightarrow> 'a::zero AnamQueue option" where
  "anam_queue_create config q_calloc_ok pool_calloc_ok mem raw =
     (let cfg = (case config of None \<Rightarrow> ANAM_QUEUE_DEFAULT | Some c \<Rightarrow> c) in
      if cfg_item_size cfg = 0 \<or> cfg_capacity cfg = 0 then None else
      if \<not> q_calloc_ok then None else
      let nsize = (sizeof_QueueNode + cfg_item_size cfg + 7) AND NOT 7;
          pool_cfg = \<lparr>cfg_slot_size = nsize, cfg_slot_count = cfg_capacity cfg + 1,
                      cfg_alignment = 0, cfg_zero_on_alloc = False,
                      cfg_zero_on_release = False\<rparr>
      in case anam_pool_create (Some pool_cfg) pool_calloc_ok mem raw of
           None \<Rightarrow> None
         | Some pl \<Rightarrow>
             let q = \<lparr>item_size = cfg_item_size cfg, capacity = cfg_capacity cfg,
                      node_size = nsize, pool = pl, head = 0, tail = 0, qlength = 0,
                      push_count = 0, pop_count = 0, push_fails = 0, pop_fails = 0,
                      aba_prevented = 0\<rparr>;
                 (dummy, q) = alloc_node q None
             in if anam_is_null dummy then None
                else Some (q\<lparr>head := dummy, tail := dummy\<rparr>))"

text \<open>
  The \<^verbatim>\<open>while (1)\<close> loop of \<^verbatim>\<open>anam_queue_push\<close>, up to its \<^verbatim>\<open>break\<close>.  Each
  \<^verbatim>\<open>continue\<close> and each pass that does not break is a recursive call; a loop that never
  breaks has the value \<open>None\<close>.
\<close>

partial_function (option) anam_queue_push_loop ::
  "'a AnamQueue \<Rightarrow> AnamHandle \<Rightarrow> 'a AnamQueue option" where
  "anam_queue_push_loop q new_h =
     (let tail_h = tail q;
          (tl, pl) = anam_get (pool q) tail_h;
          q = q\<lparr>pool := pl\<rparr>
      in if tl = 0
         then anam_queue_push_loop (q\<lparr>aba_prevented := aba_prevented q + 1\<rparr>) new_h else
      let next_h = node_next (payload (pool q) tl)
      in if tail_h \<noteq> tail q
         then anam_queue_push_loop (q\<lparr>aba_prevented := aba_prevented q + 1\<rparr>) new_h else
         if anam_is_null next_h
         then Some (q\<lparr>pool := store_node_next (pool q) tl new_h\<rparr>)
         else
           let gen = decode_gen next_h;
               addr = decode_addr next_h
           in anam_queue_push_loop (q\<lparr>tail := encode_handle gen addr ANAM_STATE_LIVE\<rparr>) new_h)"

definition anam_queue_push ::
  "'a::zero AnamQueue \<Rightarrow> 'a option \<Rightarrow> (AnamHandle \<times> 'a AnamQueue) option" where
  "anam_queue_push q data =
     (if data = None then Some (ANAM_NULL, q) else
      let (new_h, q) = alloc_node q data
      in if anam_is_null new_h
         then Some (ANAM_NULL, q\<lparr>push_fails := push_fails q + 1\<rparr>) else
         case anam_queue_push_loop q new_h of
           None \<Rightarrow> None
         | Some q \<Rightarrow>
             let gen = decode_gen new_h;
                 addr = decode_addr new_h;
                 q = q\<lparr>tail := encode_handle gen addr ANAM_STATE_LIVE\<rparr>;
                 q = q\<lparr>qlength := qlength q + 1\<rparr>;
                 q = q\<lparr>push_count := push_count q + 1\<rparr>
             in Some (new_h, q))"

text \<open>
  \<^verbatim>\<open>anam_queue_pop\<close>.  The caller's buffer is \<open>None\<close> for a \<^verbatim>\<open>NULL\<close> pointer and
  \<open>Some v\<close> for a buffer holding \<open>v\<close>; the buffer is returned as the call leaves it.
\<close>

partial_function (option) anam_queue_pop ::
  "'a::zero AnamQueue \<Rightarrow> 'a option \<Rightarrow> (bool \<times> 'a option \<times> 'a AnamQueue) option" where
  "anam_queue_pop q data_out =
     (let head_h = head q;
          tail_h = tail q;
          (hd, pl) = anam_get (pool q) head_h;
          q = q\<lparr>pool := pl\<rparr>
      in if hd = 0
         then anam_queue_pop (q\<lparr>aba_prevented := aba_prevented q + 1\<rparr>) data_out else
      let next_h = node_next (payload (pool q) hd)
      in if head_h \<noteq> head q
         then anam_queue_pop (q\<lparr>aba_prevented := aba_prevented q + 1\<rparr>) data_out else
         if head_h = tail_h then
           if anam_is_null next_h
           then Some (False, data_out, q\<lparr>pop_fails := pop_fails q + 1\<rparr>)
           else
             let gen = decode_gen next_h;
                 addr = decode_addr next_h
             in anam_queue_pop (q\<lparr>tail := encode_handle gen addr ANAM_STATE_LIVE\<rparr>) data_out
         else
           let (nx, pl) = anam_get (pool q) next_h;
               q = q\<lparr>pool := pl\<rparr>
           in if nx = 0
              then anam_queue_pop (q\<lparr>aba_prevented := aba_prevented q + 1\<rparr>) data_out else
           let data_out = (if data_out \<noteq> None
                           then Some (node_data (payload (pool q) nx)) else data_out);
               gen = decode_gen next_h;
               addr = decode_addr next_h;
               q = q\<lparr>head := encode_handle gen addr ANAM_STATE_LIVE\<rparr>;
               (released, pl) = anam_release (pool q) head_h;
               q = q\<lparr>pool := pl\<rparr>;
               q = q\<lparr>qlength := qlength q - 1\<rparr>;
               q = q\<lparr>pop_count := pop_count q + 1\<rparr>
           in Some (True, data_out, q))"

definition anam_queue_empty :: "'a AnamQueue \<Rightarrow> bool \<times> 'a AnamQueue" where
  "anam_queue_empty q =
     (let head_h = head q;
          (hd, pl) = anam_get (pool q) head_h;
          q = q\<lparr>pool := pl\<rparr>
      in if hd = 0 then (True, q)
         else (anam_is_null (node_next (payload (pool q) hd)), q))"

definition anam_queue_length :: "'a AnamQueue \<Rightarrow> 64 word" where
  "anam_queue_length q = qlength q"

text \<open>
  \<^verbatim>\<open>anam_queue_destroy\<close>: the draining loop \<^verbatim>\<open>while (anam_queue_pop(q, NULL)) {}\<close>, then
  the release of the dummy.  The result is the queue as it is when its memory is handed
  back to the allocator.
\<close>

partial_function (option) anam_queue_drain :: "'a::zero AnamQueue \<Rightarrow> 'a AnamQueue option" where
  "anam_queue_drain q =
     Option.bind (anam_queue_pop q None)
       (\<lambda>(popped, out, q). if popped then anam_queue_drain q else Some q)"

definition anam_queue_destroy :: "'a::zero AnamQueue \<Rightarrow> 'a AnamQueue option" where
  "anam_queue_destroy q =
     Option.bind (anam_queue_drain q)
       (\<lambda>q. let hd = head q
            in if \<not> anam_is_null hd
               then Some (q\<lparr>pool := snd (anam_release (pool q) hd)\<rparr>)
               else Some q)"

section \<open>Notions of the specification\<close>

text \<open>An alignment is a power of two when it is \<open>2 ^ k\<close> for one of the 64 bit positions.\<close>

definition is_power_of_two :: "64 word \<Rightarrow> bool" where
  "is_power_of_two a = (\<exists>k<64. a = 2 ^ k)"

text \<open>The slot region of a pool: \<open>slot_count\<close> strides from the base of slot zero.\<close>

definition in_slot_region :: "('p, 'z) AnamPool_scheme \<Rightarrow> 64 word \<Rightarrow> bool" where
  "in_slot_region pl a =
     (slots_base pl \<le> a \<and> a < slots_base pl + slot_count pl * slot_stride pl)"

text \<open>A handle authenticates: the four conditions of \<^verbatim>\<open>anam_get\<close>.\<close>

definition authenticates :: "'p AnamPool \<Rightarrow> AnamHandle \<Rightarrow> bool" where
  "authenticates pl h =
     (h \<noteq> ANAM_NULL \<and> anam_state h = ANAM_STATE_LIVE \<and> in_slot_region pl (decode_addr h)
      \<and> hdr_generation pl (get_header (decode_addr h)) = decode_gen h)"

subsection \<open>Sequences of pool operations\<close>

text \<open>
  A caller's operation on a pool.  Running one keeps, beside the pool, the set of handles
  that \<^verbatim>\<open>anam_alloc\<close> has returned and that no accepted \<^verbatim>\<open>anam_release\<close> has taken back:
  the live handles.  The set is bookkeeping of the caller, not state of the pool.
\<close>

datatype pool_op = Alloc | Release AnamHandle | Get AnamHandle

fun pool_step :: "'p::zero AnamPool \<times> AnamHandle set \<Rightarrow> pool_op \<Rightarrow> 'p AnamPool \<times> AnamHandle set" where
  "pool_step (pl, live) Alloc =
     (let (h, pl') = anam_alloc pl in (pl', if anam_is_null h then live else insert h live))"
| "pool_step (pl, live) (Release h) =
     (let (ok, pl') = anam_release pl h in (pl', if ok then live - {h} else live))"
| "pool_step (pl, live) (Get h) = (snd (anam_get pl h), live)"

definition pool_run :: "'p::zero AnamPool \<times> AnamHandle set \<Rightarrow> pool_op list \<Rightarrow> 'p AnamPool \<times> AnamHandle set" where
  "pool_run s ops = foldl pool_step s ops"

text \<open>
  The test of the strict-bounds mode of \<^verbatim>\<open>in_pool\<close>: the address is a whole number of
  strides from the base of slot zero.
\<close>

definition on_slot_boundary :: "('p, 'z) AnamPool_scheme \<Rightarrow> 64 word \<Rightarrow> bool" where
  "on_slot_boundary pl p = ((p - slots_base pl) mod slot_stride pl = 0)"

text \<open>
  A plain handle is one the pool answers before it reads any memory (null, state not
  LIVE, address outside the slot region), or one whose address is a slot boundary.  The
  handles \<^verbatim>\<open>anam_alloc\<close> returns are plain; a handle forged to the interior of a slot is
  not.
\<close>

definition plain_handle :: "('p, 'z) AnamPool_scheme \<Rightarrow> AnamHandle \<Rightarrow> bool" where
  "plain_handle pl h =
     (anam_is_null h \<or> anam_state h \<noteq> ANAM_STATE_LIVE \<or> \<not> in_pool pl (decode_addr h)
      \<or> on_slot_boundary pl (decode_addr h))"

fun plain_op :: "('p, 'z) AnamPool_scheme \<Rightarrow> pool_op \<Rightarrow> bool" where
  "plain_op pl Alloc = True"
| "plain_op pl (Release h) = plain_handle pl h"
| "plain_op pl (Get h) = plain_handle pl h"

text \<open>
  A sequence is disciplined when every handle in it is plain and every release in it is
  given a live handle or is rejected by the pool.
\<close>

fun disciplined :: "'p::zero AnamPool \<times> AnamHandle set \<Rightarrow> pool_op list \<Rightarrow> bool" where
  "disciplined s [] = True"
| "disciplined s (Release h # ops) =
     (plain_handle (fst s) h \<and> (h \<in> snd s \<or> \<not> fst (anam_release (fst s) h))
      \<and> disciplined (pool_step s (Release h)) ops)"
| "disciplined s (Get h # ops) =
     (plain_handle (fst s) h \<and> disciplined (pool_step s (Get h)) ops)"
| "disciplined s (Alloc # ops) = disciplined (pool_step s Alloc) ops"

text \<open>The number of accepted releases of the slot at address \<open>a\<close> during a sequence.\<close>

fun accepted_releases :: "64 word \<Rightarrow> 'p::zero AnamPool \<times> AnamHandle set \<Rightarrow> pool_op list \<Rightarrow> nat" where
  "accepted_releases a s [] = 0"
| "accepted_releases a s (Release h # ops) =
     (if fst (anam_release (fst s) h) \<and> decode_addr h = a then 1 else 0)
     + accepted_releases a (pool_step s (Release h)) ops"
| "accepted_releases a s (opn # ops) = accepted_releases a (pool_step s opn) ops"

text \<open>
  \<open>n\<close> rounds of \<^verbatim>\<open>h = anam_alloc(pool); anam_release(pool, h);\<close>, with the handles in the
  order they were returned.
\<close>

fun alloc_release_loop :: "nat \<Rightarrow> 'p::zero AnamPool \<Rightarrow> AnamHandle list \<times> 'p AnamPool" where
  "alloc_release_loop 0 pl = ([], pl)"
| "alloc_release_loop (Suc n) pl =
     (let (h, pl) = anam_alloc pl;
          (released, pl) = anam_release pl h;
          (hs, pl) = alloc_release_loop n pl
      in (h # hs, pl))"

subsection \<open>The free list and the platform\<close>

text \<open>
  The platform expectation of the specification: the slot region lies in user space,
  in bits 3..47, at a non-null, 8-aligned base, with a positive 8-aligned stride.
\<close>

definition platform_ok :: "('p, 'z) AnamPool_scheme \<Rightarrow> bool" where
  "platform_ok pl =
     (unat (slots_base pl) mod 8 = 0 \<and> 0 < unat (slots_base pl)
      \<and> unat (slot_stride pl) mod 8 = 0 \<and> 0 < unat (slot_stride pl)
      \<and> unat (slots_base pl) + unat (slot_count pl) * unat (slot_stride pl) \<le> 2 ^ 48)"

definition slot_addr :: "('p, 'z) AnamPool_scheme \<Rightarrow> nat \<Rightarrow> 64 word" where
  "slot_addr pl i = slot_from_index pl (of_nat i)"

definition slot_addrs :: "('p, 'z) AnamPool_scheme \<Rightarrow> 64 word set" where
  "slot_addrs pl = slot_addr pl ` {..<unat (slot_count pl)}"

text \<open>
  Every slot holds its header and its payload: the 16 bytes of the header before the user
  pointer and the \<open>slot_size\<close> bytes after it fit in one stride, so that the headers and
  payloads of different slots share no byte.
\<close>

definition slots_fit :: "('p, 'z) AnamPool_scheme \<Rightarrow> bool" where
  "slots_fit pl = (unat (slot_size pl) + 16 \<le> unat (slot_stride pl))"

text \<open>
  The links of the free list stay on slot boundaries: \<^verbatim>\<open>free_head\<close> and the \<^verbatim>\<open>next\<close> field
  of every slot header are null or carry the address of a slot.
\<close>

definition slot_link :: "('p, 'z) AnamPool_scheme \<Rightarrow> AnamHandle \<Rightarrow> bool" where
  "slot_link pl h = (h = ANAM_NULL \<or> decode_addr h \<in> slot_addrs pl)"

definition links_on_slots :: "('p, 'z) AnamPool_scheme \<Rightarrow> bool" where
  "links_on_slots pl =
     (slot_link pl (free_head pl)
      \<and> (\<forall>a\<in>slot_addrs pl. slot_link pl (hdr_next pl (get_header a))))"

text \<open>
  The free list starting at handle \<open>h\<close> runs through the slots at addresses \<open>as\<close>: each
  handle on it has state FREE and carries the generation of the header it points to.
\<close>

primrec free_chain :: "('p, 'z) AnamPool_scheme \<Rightarrow> AnamHandle \<Rightarrow> 64 word list \<Rightarrow> bool" where
  "free_chain pl h [] = (h = ANAM_NULL)"
| "free_chain pl h (a # as) =
     (h = encode_handle (hdr_generation pl (get_header a)) a ANAM_STATE_FREE
      \<and> free_chain pl (hdr_next pl (get_header a)) as)"

text \<open>A live handle of a pool: state LIVE, a slot's address, the generation of its header.\<close>

definition live_handle :: "('p, 'z) AnamPool_scheme \<Rightarrow> AnamHandle \<Rightarrow> bool" where
  "live_handle pl h =
     (decode_addr h \<in> slot_addrs pl
      \<and> h = encode_handle (hdr_generation pl (get_header (decode_addr h))) (decode_addr h)
            ANAM_STATE_LIVE)"

text \<open>
  The invariant of a pool between operations: the free list is \<open>fs\<close>, the live handles
  are \<open>live\<close>, every slot is on exactly one of the two sides, and the counters agree.
\<close>

definition pool_inv :: "('p, 'z) AnamPool_scheme \<Rightarrow> 64 word list \<Rightarrow> AnamHandle set \<Rightarrow> bool" where
  "pool_inv pl fs live =
     (platform_ok pl \<and> free_chain pl (free_head pl) fs \<and> distinct fs
      \<and> set fs \<subseteq> slot_addrs pl \<and> finite live \<and> (\<forall>h\<in>live. live_handle pl h)
      \<and> inj_on decode_addr live \<and> decode_addr ` live \<inter> set fs = {}
      \<and> length fs + card live = unat (slot_count pl)
      \<and> slots_free pl = of_nat (length fs)
      \<and> alloc_count pl - release_count pl = of_nat (card live))"



subsection \<open>Sequences of queue operations\<close>

text \<open>Pushing the items of a list in order; the handles returned, in order.\<close>

fun push_all :: "'a::zero AnamQueue \<Rightarrow> 'a list \<Rightarrow> (AnamHandle list \<times> 'a AnamQueue) option" where
  "push_all q [] = Some ([], q)"
| "push_all q (x # xs) =
     (case anam_queue_push q (Some x) of
        None \<Rightarrow> None
      | Some (h, q) \<Rightarrow>
          (case push_all q xs of None \<Rightarrow> None | Some (hs, q) \<Rightarrow> Some (h # hs, q)))"

text \<open>
  Popping \<open>n\<close> times into one buffer that holds \<open>buf\<close> at first; for each pop its result
  and what the buffer holds after it.
\<close>

fun pop_n :: "nat \<Rightarrow> 'a::zero AnamQueue \<Rightarrow> 'a \<Rightarrow> ((bool \<times> 'a) list \<times> 'a AnamQueue) option" where
  "pop_n 0 q buf = Some ([], q)"
| "pop_n (Suc n) q buf =
     (case anam_queue_pop q (Some buf) of
        None \<Rightarrow> None
      | Some (popped, out, q) \<Rightarrow>
          (let buf = (case out of None \<Rightarrow> buf | Some v \<Rightarrow> v)
           in case pop_n n q buf of
                None \<Rightarrow> None
              | Some (rs, q) \<Rightarrow> Some ((popped, buf) # rs, q)))"

subsection \<open>The queue invariant\<close>

text \<open>
  The nodes linked from the node of handle \<open>h\<close> are those of the handles \<open>hs\<close>, in order,
  and the last one has no successor.
\<close>

primrec node_chain :: "'a QueueNode AnamPool \<Rightarrow> AnamHandle \<Rightarrow> AnamHandle list \<Rightarrow> bool" where
  "node_chain pl h [] = (node_next (payload pl (decode_addr h)) = ANAM_NULL)"
| "node_chain pl h (h' # hs) =
     (node_next (payload pl (decode_addr h)) = h' \<and> node_chain pl h' hs)"

text \<open>
  A queue between operations: \<open>head\<close> is the dummy, the nodes after it are \<open>hs\<close> and carry
  the items \<open>xs\<close>, \<open>tail\<close> is the last node, the pool's free list is \<open>fs\<close> and its live
  handles are exactly the nodes; the pool has one slot more than the capacity and does
  not zero payloads.
\<close>

definition queue_inv :: "'a AnamQueue \<Rightarrow> AnamHandle list \<Rightarrow> 64 word list \<Rightarrow> 'a list \<Rightarrow> bool" where
  "queue_inv q hs fs xs =
     (pool_inv (pool q) fs (set (head q # hs)) \<and> distinct (head q # hs)
      \<and> node_chain (pool q) (head q) hs \<and> tail q = last (head q # hs)
      \<and> map (\<lambda>h. node_data (payload (pool q) (decode_addr h))) hs = xs
      \<and> \<not> zero_on_alloc (pool q) \<and> \<not> zero_on_release (pool q)
      \<and> unat (slot_count (pool q)) = unat (capacity q) + 1)"

text \<open>The queue is well formed and holds the items \<open>xs\<close>, front first.\<close>

definition queue_holds :: "'a AnamQueue \<Rightarrow> 'a list \<Rightarrow> bool" where
  "queue_holds q xs = (\<exists>hs fs. queue_inv q hs fs xs)"

section \<open>The pool on untyped memory\<close>

text \<open>
  The typed memory above is exact as long as every access goes through a slot boundary.
  A handle forged to the interior of a slot makes \<^verbatim>\<open>get_header\<close> compute an address inside
  a slot, where the bytes of the \<^verbatim>\<open>next\<close> and \<^verbatim>\<open>generation\<close> fields are bytes of a neighbouring
  header or payload.  This section embeds the same pool functions over the buffer as the
  machine has it.  Every address the pool computes is a multiple of 8 (the base and the
  stride are, \<^verbatim>\<open>decode_addr\<close> clears the low three bits), so the buffer is a map from
  8-aligned addresses to 8-byte cells, little-endian: \<^verbatim>\<open>next\<close> is the cell at the header,
  \<^verbatim>\<open>generation\<close> the low 16 bits of the cell 8 bytes further, the payload starts at the
  user pointer.
\<close>

record RawPool =
  raw_slot_size :: "64 word"
  raw_slot_stride :: "64 word"
  raw_slot_stride_mask :: "64 word"
  raw_slot_count :: "64 word"
  raw_alignment :: "64 word"
  raw_zero_on_alloc :: bool
  raw_zero_on_release :: bool
  raw_memory :: "64 word"
  raw_slots_base :: "64 word"
  raw_free_head :: AnamHandle
  raw_slots_free :: "64 word"
  raw_alloc_count :: "64 word"
  raw_release_count :: "64 word"
  raw_anamnesis_count :: "64 word"
  raw_generation_max :: "16 word"
  cells :: "64 word \<Rightarrow> 64 word"

text \<open>Loads and stores of the two header fields, at their offsets 0 and 8.\<close>

definition load_next :: "(64 word \<Rightarrow> 64 word) \<Rightarrow> 64 word \<Rightarrow> AnamHandle" where
  "load_next m header = m header"

definition store_next :: "(64 word \<Rightarrow> 64 word) \<Rightarrow> 64 word \<Rightarrow> AnamHandle \<Rightarrow> 64 word \<Rightarrow> 64 word" where
  "store_next m header v = m(header := v)"

definition load_generation :: "(64 word \<Rightarrow> 64 word) \<Rightarrow> 64 word \<Rightarrow> 16 word" where
  "load_generation m header = ucast (m (header + 8))"

definition store_generation :: "(64 word \<Rightarrow> 64 word) \<Rightarrow> 64 word \<Rightarrow> 16 word \<Rightarrow> 64 word \<Rightarrow> 64 word" where
  "store_generation m header g =
     m(header + 8 := (m (header + 8) AND NOT (mask 16)) OR ucast g)"

text \<open>
  \<^verbatim>\<open>memset(p, 0, n)\<close>: the cells that lie in the \<open>n\<close> bytes from \<open>p\<close> become zero; of a
  cell that only starts in them, the low bytes do.
\<close>

definition memset_zero :: "(64 word \<Rightarrow> 64 word) \<Rightarrow> 64 word \<Rightarrow> 64 word \<Rightarrow> 64 word \<Rightarrow> 64 word" where
  "memset_zero m p n =
     (\<lambda>x. let off = x - p
          in if off < n
             then (if 8 \<le> n - off then 0 else m x AND NOT (mask (8 * unat (n - off))))
             else m x)"

definition in_pool_raw :: "RawPool \<Rightarrow> 64 word \<Rightarrow> bool" where
  "in_pool_raw pl p =
     (let base = raw_slots_base pl;
          end = base + raw_slot_count pl * raw_slot_stride pl
      in if p < base \<or> p \<ge> end then False
         else if ANAM_STRICT_VALIDATION then
           (let off = p - base
            in if raw_slot_stride_mask pl \<noteq> 0 then off AND raw_slot_stride_mask pl = 0
               else off mod raw_slot_stride pl = 0)
         else True)"

fun anam_pool_create_loop_raw :: "nat \<Rightarrow> RawPool \<Rightarrow> RawPool" where
  "anam_pool_create_loop_raw 0 pl = pl"
| "anam_pool_create_loop_raw (Suc i) pl =
     (let user_ptr = raw_slots_base pl + of_nat i * raw_slot_stride pl;
          header = get_header user_ptr;
          pl = pl\<lparr>cells := store_generation (cells pl) header 0\<rparr>;
          old_head = raw_free_head pl;
          new_handle = encode_handle 0 user_ptr ANAM_STATE_FREE;
          pl = pl\<lparr>cells := store_next (cells pl) header old_head\<rparr>;
          pl = pl\<lparr>raw_free_head := new_handle\<rparr>
      in anam_pool_create_loop_raw i pl)"

definition anam_pool_create_raw ::
  "AnamPoolConfig option \<Rightarrow> bool \<Rightarrow> 64 word \<Rightarrow> (64 word \<Rightarrow> 64 word) \<Rightarrow> RawPool option" where
  "anam_pool_create_raw config calloc_ok mem buffer =
     (let cfg = (case config of None \<Rightarrow> ANAM_POOL_DEFAULT | Some c \<Rightarrow> c) in
      if cfg_slot_size cfg = 0 \<or> cfg_slot_count cfg = 0 then None else
      let cfg = (if cfg_alignment cfg = 0 then cfg\<lparr>cfg_alignment := 8\<rparr> else cfg) in
      if cfg_alignment cfg AND (cfg_alignment cfg - 1) \<noteq> 0 then None else
      if cfg_alignment cfg < 8 then None else
      if \<not> calloc_ok then None else
      let header_size = align_up sizeof_SlotHeader (cfg_alignment cfg);
          user_size = align_up (cfg_slot_size cfg) (cfg_alignment cfg);
          stride = align_up (header_size + user_size) 8
      in if mem = 0 then None else
      let base = align_up (mem + sizeof_SlotHeader) (cfg_alignment cfg);
          pl = \<lparr>raw_slot_size = cfg_slot_size cfg,
                raw_slot_stride = stride,
                raw_slot_stride_mask = (if stride AND (stride - 1) = 0 then stride - 1 else 0),
                raw_slot_count = cfg_slot_count cfg,
                raw_alignment = cfg_alignment cfg,
                raw_zero_on_alloc = cfg_zero_on_alloc cfg,
                raw_zero_on_release = cfg_zero_on_release cfg,
                raw_memory = mem,
                raw_slots_base = base,
                raw_free_head = ANAM_NULL,
                raw_slots_free = cfg_slot_count cfg,
                raw_alloc_count = 0, raw_release_count = 0, raw_anamnesis_count = 0,
                raw_generation_max = 0,
                cells = buffer\<rparr>
      in Some (anam_pool_create_loop_raw (unat (cfg_slot_count cfg)) pl))"

definition anam_alloc_raw :: "RawPool \<Rightarrow> AnamHandle \<times> RawPool" where
  "anam_alloc_raw pl =
     (let old_head = raw_free_head pl in
      if anam_is_null old_head then (ANAM_NULL, pl) else
      let user_ptr = decode_addr old_head;
          header = get_header user_ptr;
          new_head = load_next (cells pl) header;
          pl = pl\<lparr>raw_free_head := new_head\<rparr>;
          gen = load_generation (cells pl) header;
          max_gen = raw_generation_max pl;
          pl = (if gen > max_gen then pl\<lparr>raw_generation_max := gen\<rparr> else pl);
          pl = pl\<lparr>cells := store_next (cells pl) header ANAM_NULL\<rparr>;
          pl = pl\<lparr>raw_slots_free := raw_slots_free pl - 1\<rparr>;
          pl = pl\<lparr>raw_alloc_count := raw_alloc_count pl + 1\<rparr>;
          pl = (if raw_zero_on_alloc pl
                then pl\<lparr>cells := memset_zero (cells pl) user_ptr (raw_slot_size pl)\<rparr> else pl)
      in (encode_handle gen user_ptr ANAM_STATE_LIVE, pl))"

definition anam_release_raw :: "RawPool \<Rightarrow> AnamHandle \<Rightarrow> bool \<times> RawPool" where
  "anam_release_raw pl handle =
     (if anam_is_null handle then (False, pl) else
      if anam_state handle \<noteq> ANAM_STATE_LIVE
      then (False, pl\<lparr>raw_anamnesis_count := raw_anamnesis_count pl + 1\<rparr>) else
      let user_ptr = decode_addr handle in
      if \<not> in_pool_raw pl user_ptr
      then (False, pl\<lparr>raw_anamnesis_count := raw_anamnesis_count pl + 1\<rparr>) else
      let header = get_header user_ptr;
          claimed_gen = decode_gen handle;
          true_gen = load_generation (cells pl) header
      in if claimed_gen \<noteq> true_gen
         then (False, pl\<lparr>raw_anamnesis_count := raw_anamnesis_count pl + 1\<rparr>) else
      let new_gen = true_gen + 1;
          pl = pl\<lparr>cells := store_generation (cells pl) header new_gen\<rparr>;
          pl = (if raw_zero_on_release pl
                then pl\<lparr>cells := memset_zero (cells pl) user_ptr (raw_slot_size pl)\<rparr> else pl);
          old_head = raw_free_head pl;
          pl = pl\<lparr>cells := store_next (cells pl) header old_head\<rparr>;
          new_handle = encode_handle new_gen user_ptr ANAM_STATE_FREE;
          pl = pl\<lparr>raw_free_head := new_handle\<rparr>;
          pl = pl\<lparr>raw_slots_free := raw_slots_free pl + 1\<rparr>;
          pl = pl\<lparr>raw_release_count := raw_release_count pl + 1\<rparr>
      in (True, pl))"

definition anam_get_raw :: "RawPool \<Rightarrow> AnamHandle \<Rightarrow> 64 word \<times> RawPool" where
  "anam_get_raw pl handle =
     (if anam_is_null handle then (0, pl) else
      if anam_state handle \<noteq> ANAM_STATE_LIVE
      then (0, pl\<lparr>raw_anamnesis_count := raw_anamnesis_count pl + 1\<rparr>) else
      let user_ptr = decode_addr handle in
      if \<not> in_pool_raw pl user_ptr
      then (0, pl\<lparr>raw_anamnesis_count := raw_anamnesis_count pl + 1\<rparr>) else
      let header = get_header user_ptr;
          claimed_gen = decode_gen handle;
          true_gen = load_generation (cells pl) header
      in if claimed_gen \<noteq> true_gen
         then (0, pl\<lparr>raw_anamnesis_count := raw_anamnesis_count pl + 1\<rparr>)
         else (user_ptr, pl))"

text \<open>Running a sequence of operations, and the accepted releases of one slot in it.\<close>

fun raw_step :: "RawPool \<Rightarrow> pool_op \<Rightarrow> RawPool" where
  "raw_step pl Alloc = snd (anam_alloc_raw pl)"
| "raw_step pl (Release h) = snd (anam_release_raw pl h)"
| "raw_step pl (Get h) = snd (anam_get_raw pl h)"

definition raw_run :: "RawPool \<Rightarrow> pool_op list \<Rightarrow> RawPool" where
  "raw_run pl ops = foldl raw_step pl ops"

fun accepted_releases_raw :: "64 word \<Rightarrow> RawPool \<Rightarrow> pool_op list \<Rightarrow> nat" where
  "accepted_releases_raw a pl [] = 0"
| "accepted_releases_raw a pl (Release h # ops) =
     (if fst (anam_release_raw pl h) \<and> decode_addr h = a then 1 else 0)
     + accepted_releases_raw a (raw_step pl (Release h)) ops"
| "accepted_releases_raw a pl (opn # ops) = accepted_releases_raw a (raw_step pl opn) ops"

text \<open>
  A typed pool represents a pool on untyped memory when the fields of the two structures
  are equal and, at every slot, the two header fields of the typed memory are what the
  loads of the untyped memory return.
\<close>

definition same_fields :: "'p AnamPool \<Rightarrow> RawPool \<Rightarrow> bool" where
  "same_fields pl rp =
     (slot_size pl = raw_slot_size rp \<and> slot_stride pl = raw_slot_stride rp
      \<and> slot_stride_mask pl = raw_slot_stride_mask rp \<and> slot_count pl = raw_slot_count rp
      \<and> alignment pl = raw_alignment rp \<and> zero_on_alloc pl = raw_zero_on_alloc rp
      \<and> zero_on_release pl = raw_zero_on_release rp \<and> memory pl = raw_memory rp
      \<and> slots_base pl = raw_slots_base rp \<and> free_head pl = raw_free_head rp
      \<and> slots_free pl = raw_slots_free rp \<and> alloc_count pl = raw_alloc_count rp
      \<and> release_count pl = raw_release_count rp
      \<and> anamnesis_count pl = raw_anamnesis_count rp
      \<and> generation_max pl = raw_generation_max rp)"

text \<open>The header of the slot at user pointer \<open>a\<close> holds the same link and generation.\<close>

definition same_header :: "'p AnamPool \<Rightarrow> RawPool \<Rightarrow> 64 word \<Rightarrow> bool" where
  "same_header pl rp a =
     (hdr_next pl (get_header a) = load_next (cells rp) (get_header a)
      \<and> hdr_generation pl (get_header a) = load_generation (cells rp) (get_header a))"

text \<open>Equal fields, and the same header at every slot.\<close>

definition represents :: "'p AnamPool \<Rightarrow> RawPool \<Rightarrow> bool" where
  "represents pl rp = (same_fields pl rp \<and> (\<forall>a\<in>slot_addrs pl. same_header pl rp a))"

section \<open>Concrete pools and queues used as examples\<close>

text \<open>A buffer of zero bytes at address \<open>0x1000\<close>, and the configuration of the generation
  cycling test: one slot of 64 bytes, every other field left zero.\<close>

definition raw_zero :: "'p::zero Memory" where
  "raw_zero = \<lparr>hdr_next = (\<lambda>_. 0), hdr_generation = (\<lambda>_. 0), payload = (\<lambda>_. 0)\<rparr>"

definition one_slot_config :: AnamPoolConfig where
  "one_slot_config =
     \<lparr>cfg_slot_size = 64, cfg_slot_count = 1, cfg_alignment = 0,
      cfg_zero_on_alloc = False, cfg_zero_on_release = False\<rparr>"

definition one_slot_pool :: "nat AnamPool" where
  "one_slot_pool = the (anam_pool_create (Some one_slot_config) True 0x1000 raw_zero)"


text \<open>The queue of the basic queue test: capacity 100, items of four bytes.\<close>

definition test_queue_config :: AnamQueueConfig where
  "test_queue_config = \<lparr>cfg_item_size = 4, cfg_capacity = 100\<rparr>"

definition test_queue :: "int AnamQueue" where
  "test_queue = the (anam_queue_create (Some test_queue_config) True True 0x1000 raw_zero)"

section \<open>Handle encoding\<close>

lemma ANAM_ADDR_MASK_alt: "ANAM_ADDR_MASK = push_bit 3 (mask 45)"
  by (simp add: ANAM_ADDR_MASK_def mask_eq_exp_minus_1 push_bit_eq_mult)

lemma ANAM_STATE_MASK_alt: "ANAM_STATE_MASK = mask 3"
  by (simp add: ANAM_STATE_MASK_def mask_eq_exp_minus_1)

lemma seven_alt: "(7 :: 'a::len word) = mask 3"
  by (simp add: mask_eq_exp_minus_1)

lemma addr_mask_id:
  fixes a :: "64 word"
  assumes d: "unat a mod 8 = 0" and b: "unat a < 2 ^ 48"
  shows "a AND ANAM_ADDR_MASK = a"
proof -
  have "(2::nat) ^ 3 dvd unat a"
    using d by (simp add: dvd_eq_mod_eq_0)
  then have lo: "a AND mask 3 = 0"
    by (simp only: and_mask_dvd_nat)
  have "a < 2 ^ 48"
    using b by (simp add: word_less_nat_alt)
  then have hi: "a AND mask 48 = a"
    by (rule less_mask_eq)
  have lo0: "bit (a AND mask 3) n = bit (0 :: 64 word) n" for n
    using lo by simp
  have lo': "\<not> bit a n" if "n < 3" for n
    using lo0 [of n] that by (auto simp: bit_simps)
  have hi0: "bit (a AND mask 48) n = bit a n" for n
    using hi by simp
  have hi': "n < 48" if "bit a n" for n
    using hi0 [of n] that by (auto simp: bit_simps)
  show ?thesis
    unfolding ANAM_ADDR_MASK_alt
  proof (rule bit_word_eqI)
    fix n
    show "bit (a AND push_bit 3 (mask 45)) n \<longleftrightarrow> bit a n"
    proof (cases "bit a n")
      case True
      have "3 \<le> n"
        using lo' [of n] True by (cases "n < 3") simp_all
      moreover have "n < 48"
        using hi' [OF True] .
      ultimately show ?thesis
        using True by (simp add: bit_simps) arith
    next
      case False
      then show ?thesis by (simp add: bit_simps)
    qed
  qed
qed

lemma addr_mask_props:
  fixes a :: "64 word"
  assumes "a AND ANAM_ADDR_MASK = a"
  shows "unat a mod 8 = 0" "unat a < 2 ^ 48"
proof -
  have b: "bit (a AND push_bit 3 (mask 45)) n = bit a n" for n
    using assms unfolding ANAM_ADDR_MASK_alt by simp
  have lo': "\<not> bit a n" if "n < 3" for n
    using b [of n] that by (auto simp: bit_simps)
  have hi': "n < 48" if "bit a n" for n
    using b [of n] that by (auto simp: bit_simps)
  have "a AND mask 3 = 0"
    by (rule bit_word_eqI) (use lo' in \<open>auto simp: bit_simps\<close>)
  then have "(2::nat) ^ 3 dvd unat a" by (simp only: and_mask_dvd_nat)
  then show "unat a mod 8 = 0" by (simp add: dvd_eq_mod_eq_0)
  have "a AND mask 48 = a"
    by (rule bit_word_eqI) (use hi' in \<open>auto simp: bit_simps\<close>)
  then have "a < 2 ^ 48" by (simp add: mask_eq_iff_w2p word_size)
  then show "unat a < 2 ^ 48" by (simp add: word_less_nat_alt)
qed

lemma decode_gen_encode: "decode_gen (encode_handle g a s) = g"
  unfolding decode_gen_def encode_handle_def ANAM_ADDR_MASK_alt ANAM_STATE_MASK_alt
  by (rule bit_word_eqI) (auto simp: bit_simps)

lemma decode_addr_encode: "decode_addr (encode_handle g a s) = a AND ANAM_ADDR_MASK"
  unfolding decode_addr_def encode_handle_def ANAM_ADDR_MASK_alt ANAM_STATE_MASK_alt
  by (rule bit_word_eqI) (auto simp: bit_simps)

lemma anam_state_encode: "anam_state (encode_handle g a s) = s AND 7"
  unfolding anam_state_def encode_handle_def ANAM_ADDR_MASK_alt ANAM_STATE_MASK_alt seven_alt
  by (rule bit_word_eqI) (auto simp: bit_simps)

lemma encode_null: "encode_handle 0 0 ANAM_STATE_FREE = ANAM_NULL"
  by (simp add: encode_handle_def ANAM_STATE_FREE_def ANAM_NULL_def)

lemmas ANAM_STATE_defs = ANAM_STATE_FREE_def ANAM_STATE_LIVE_def ANAM_STATE_QUARANTINE_def ANAM_STATE_LOCKED_def

text \<open>
  Claim C9.  Encoding round-trips: for every 16-bit generation \<open>g\<close>, every address \<open>a\<close>
  that is a multiple of 8 and fits in bits 3..47, and every state among FREE, LIVE,
  QUARANTINE and LOCKED, the decoders recover \<open>g\<close>, \<open>a\<close> and the state from
  \<open>encode_handle g a s\<close>.  The encoding of generation 0, the null address and FREE is the
  all-zero handle \<open>ANAM_NULL\<close>, which is null and resolves to no payload.
\<close>

theorem handle_encoding_roundtrip:
  fixes g :: "16 word" and a :: "64 word" and s :: "8 word"
  assumes "unat a mod 8 = 0" and "unat a < 2 ^ 48"
    and "s \<in> {ANAM_STATE_FREE, ANAM_STATE_LIVE, ANAM_STATE_QUARANTINE, ANAM_STATE_LOCKED}"
  shows "decode_gen (encode_handle g a s) = g
       \<and> anam_generation (encode_handle g a s) = g
       \<and> decode_addr (encode_handle g a s) = a
       \<and> anam_state (encode_handle g a s) = s
       \<and> encode_handle 0 0 ANAM_STATE_FREE = ANAM_NULL
       \<and> anam_is_null (encode_handle 0 0 ANAM_STATE_FREE)
       \<and> fst (anam_get pl (encode_handle 0 0 ANAM_STATE_FREE)) = 0"
proof -
  have s: "s AND 7 = s"
    using assms(3) by (auto simp: ANAM_STATE_defs)
  have g: "anam_generation h = decode_gen h" for h
    by (simp add: anam_generation_def decode_gen_def)
  show ?thesis
    using addr_mask_id [OF assms(1,2)] s
    by (simp add: g decode_gen_encode decode_addr_encode anam_state_encode encode_null
        anam_is_null_def anam_get_def)
qed

theorem handle_encoding_roundtrip_witness:
  "unat (0x1010 :: 64 word) mod 8 = 0 \<and> unat (0x1010 :: 64 word) < 2 ^ 48
   \<and> decode_gen (encode_handle 7 0x1010 ANAM_STATE_LIVE) = 7
   \<and> decode_addr (encode_handle 7 0x1010 ANAM_STATE_LIVE) = 0x1010
   \<and> anam_state (encode_handle 7 0x1010 ANAM_STATE_LIVE) = ANAM_STATE_LIVE"
proof -
  have h1: "unat (0x1010 :: 64 word) mod 8 = 0" by simp
  have h2: "unat (0x1010 :: 64 word) < 2 ^ 48" by simp
  have h3: "ANAM_STATE_LIVE \<in> {ANAM_STATE_FREE, ANAM_STATE_LIVE, ANAM_STATE_QUARANTINE, ANAM_STATE_LOCKED}"
    by simp
  show ?thesis
    using h1 h2 handle_encoding_roundtrip [OF h1 h2 h3, of 7] by blast
qed

section \<open>Pool creation\<close>

lemma nat_and_pred_zero:
  fixes n :: nat
  shows "0 < n \<Longrightarrow> n AND (n - 1) = 0 \<Longrightarrow> \<exists>k. n = 2 ^ k"
proof (induction n rule: less_induct)
  case (less n)
  show ?case
  proof (cases "even n")
    case True
    then obtain m where m: "n = 2 * m" by (auto elim: evenE)
    with less.prems have m0: "0 < m" by simp
    have "(n - 1) div 2 = m - 1" "odd (n - 1)"
      using m m0 by auto
    then have "n AND (n - 1) = 2 * (m AND (m - 1))"
      using m by (subst and_nat_rec) simp
    with less.prems have "m AND (m - 1) = 0" by simp
    moreover have "m < n" using m m0 by simp
    ultimately obtain k where "m = 2 ^ k"
      using less.IH m0 by blast
    then have "n = 2 ^ Suc k" using m by simp
    then show ?thesis by blast
  next
    case False
    then obtain m where m: "n = 2 * m + 1" by (auto elim: oddE)
    have "n AND (n - 1) = 2 * m"
      using m by (subst and_nat_rec) simp
    with less.prems have "m = 0" by simp
    then have "n = 2 ^ 0" using m by simp
    then show ?thesis by blast
  qed
qed

lemma word_and_pred_zero_iff:
  fixes w :: "64 word"
  assumes "w \<noteq> 0"
  shows "w AND (w - 1) = 0 \<longleftrightarrow> is_power_of_two w"
proof
  assume z: "w AND (w - 1) = 0"
  have "unat (w AND (w - 1)) = unat w AND (unat w - 1)"
    using assms by (simp add: unsigned_and_eq unat_minus_one)
  with z have "unat w AND (unat w - 1) = 0" by simp
  moreover have "0 < unat w" using assms by (simp add: unat_gt_0)
  ultimately obtain k where k: "unat w = 2 ^ k"
    using nat_and_pred_zero by blast
  have "unat w < 2 ^ 64" using unsigned_less [of w, where 'a = nat] by simp
  with k have "(2::nat) ^ k < 2 ^ 64" by simp
  then have "k < 64" by (simp only: power_strict_increasing_iff one_less_numeral_iff semiring_norm)
  moreover have "w = 2 ^ k"
  proof -
    have "w = of_nat (unat w)" by simp
    also have "\<dots> = of_nat (2 ^ k)" by (simp only: k)
    also have "\<dots> = 2 ^ k" by simp
    finally show ?thesis .
  qed
  ultimately show "is_power_of_two w" unfolding is_power_of_two_def by blast
next
  assume "is_power_of_two w"
  then obtain k where k: "k < 64" "w = 2 ^ k" unfolding is_power_of_two_def by blast
  have "(2 :: 64 word) ^ k - 1 = mask k" by (simp add: mask_eq_exp_minus_1)
  moreover have "(2 :: 64 word) ^ k AND mask k = 0"
    by (rule bit_word_eqI) (auto simp: bit_simps)
  ultimately show "w AND (w - 1) = 0" using k by simp
qed

text \<open>
  Claim C8, as the code has it.  \<^verbatim>\<open>anam_pool_create\<close> returns \<^verbatim>\<open>NULL\<close> exactly when the
  slot size is zero, the slot count is zero, the alignment is nonzero and not a power of
  two, the alignment is nonzero and below 8, or an allocation fails (the pool structure or
  the buffer).  An alignment of zero is replaced by the default 8 before the checks.
\<close>

theorem anam_pool_create_null_iff:
  "anam_pool_create (Some cfg) calloc_ok mem raw = None \<longleftrightarrow>
           cfg_slot_size cfg = 0 \<or> cfg_slot_count cfg = 0
         \<or> (cfg_alignment cfg \<noteq> 0 \<and> \<not> is_power_of_two (cfg_alignment cfg))
         \<or> (cfg_alignment cfg \<noteq> 0 \<and> cfg_alignment cfg < 8)
         \<or> \<not> calloc_ok \<or> mem = 0"
proof (cases "cfg_alignment cfg = 0")
  case True
  then show ?thesis
    unfolding anam_pool_create_def
    by (simp add: Let_def)
next
  case False
  then show ?thesis
    unfolding anam_pool_create_def
    by (simp add: Let_def word_and_pred_zero_iff)
qed

lemma in_pool_iff: "in_pool pl a = in_slot_region pl a"
  by (auto simp: in_pool_def in_slot_region_def ANAM_STRICT_VALIDATION_def Let_def)

lemma in_slot_region_nonzero: "slots_base pl \<noteq> 0 \<Longrightarrow> in_slot_region pl a \<Longrightarrow> a \<noteq> 0"
  by (auto simp: in_slot_region_def)

lemma raw_zero_sel [simp]: "hdr_next raw_zero = (\<lambda>_. 0)" "hdr_generation raw_zero = (\<lambda>_. 0)"
    "payload raw_zero = (\<lambda>_. 0)"
  by (simp_all add: raw_zero_def)

lemma one_slot_pool_create:
  "anam_pool_create (Some one_slot_config) True 0x1000 (raw_zero :: nat Memory) =
     Some \<lparr>hdr_next = (\<lambda>_. 0), hdr_generation = (\<lambda>_. 0), payload = (\<lambda>_. 0),
      slot_size = 64, slot_stride = 80, slot_stride_mask = 0, slot_count = 1,
      alignment = 8, zero_on_alloc = False, zero_on_release = False,
      memory = 0x1000, slots_base = 0x1010, free_head = 0x1010, slots_free = 1,
      alloc_count = 0, release_count = 0, anamnesis_count = 0, generation_max = 0\<rparr>"
  by (simp add: anam_pool_create_def one_slot_config_def Let_def align_up_def
      sizeof_SlotHeader_def slot_from_index_def get_header_def encode_handle_def ANAM_NULL_def
      ANAM_STATE_FREE_def ANAM_ADDR_MASK_def fun_eq_iff)

lemma one_slot_pool_val:
  "one_slot_pool =
     \<lparr>hdr_next = (\<lambda>_. 0), hdr_generation = (\<lambda>_. 0), payload = (\<lambda>_. 0),
      slot_size = 64, slot_stride = 80, slot_stride_mask = 0, slot_count = 1,
      alignment = 8, zero_on_alloc = False, zero_on_release = False,
      memory = 0x1000, slots_base = 0x1010, free_head = 0x1010, slots_free = 1,
      alloc_count = 0, release_count = 0, anamnesis_count = 0, generation_max = 0\<rparr>"
  unfolding one_slot_pool_def by (simp only: one_slot_pool_create option.sel)

lemma one_slot_pool_alloc:
  "anam_alloc one_slot_pool =
     (0x1011, one_slot_pool\<lparr>free_head := 0, slots_free := 0, alloc_count := 1\<rparr>)"
  by (simp add: one_slot_pool_val anam_alloc_def anam_is_null_def ANAM_NULL_def decode_addr_def
      ANAM_ADDR_MASK_def get_header_def sizeof_SlotHeader_def Let_def encode_handle_def
      ANAM_STATE_LIVE_def ANAM_STATE_MASK_def fun_eq_iff)

theorem anam_pool_create_null_iff_witness:
  "anam_pool_create (Some one_slot_config) True 0x1000 (raw_zero :: nat Memory) \<noteq> None
   \<and> cfg_alignment one_slot_config = 0
   \<and> anam_pool_create (Some (one_slot_config\<lparr>cfg_alignment := 24\<rparr>)) True 0x1000
         (raw_zero :: nat Memory) = None
   \<and> \<not> is_power_of_two 24"
proof -
  have a: "\<not> is_power_of_two 24"
    using word_and_pred_zero_iff [of 24] by simp
  show ?thesis
    using a
      anam_pool_create_null_iff [of one_slot_config True "0x1000" "raw_zero :: nat Memory"]
      anam_pool_create_null_iff [of "one_slot_config\<lparr>cfg_alignment := 24\<rparr>" True "0x1000"
        "raw_zero :: nat Memory"]
    by (simp add: one_slot_config_def)
qed

theorem anam_pool_create_zero_alignment_counterexample:
  "\<not> is_power_of_two (cfg_alignment one_slot_config)
   \<and> cfg_alignment one_slot_config < 8
   \<and> anam_pool_create (Some one_slot_config) True 0x1000 (raw_zero :: nat Memory) \<noteq> None"
proof -
  have "\<not> is_power_of_two 0"
    by (auto simp: is_power_of_two_def)
  then show ?thesis
    by (simp add: one_slot_config_def anam_pool_create_def Let_def)
qed

text \<open>
  An alignment of zero is replaced by the default: the pool is the one that alignment 8
  gives.
\<close>

lemma anam_pool_create_default_alignment:
  "cfg_alignment cfg = 0 \<Longrightarrow>
     anam_pool_create (Some cfg) calloc_ok mem raw
       = anam_pool_create (Some (cfg\<lparr>cfg_alignment := 8\<rparr>)) calloc_ok mem raw"
  by (simp add: anam_pool_create_def Let_def)

section \<open>Validated access and release\<close>

text \<open>
  Claim C1, as the code has it.  \<^verbatim>\<open>anam_get\<close> returns a non-null payload pointer if and
  only if the handle authenticates (non-null, state LIVE, address inside the slot region,
  header generation equal to the handle's generation); it then returns the decoded
  address and changes nothing.  For the null handle it returns null and leaves the pool,
  \<open>anamnesis_count\<close> included, unchanged.  In every other case it returns null and
  increments \<open>anamnesis_count\<close> by exactly one.  The base of the slot region is not the
  null address.
\<close>

theorem anam_get_authenticates:
  assumes "slots_base pl \<noteq> 0"
  shows "(fst (anam_get pl h) \<noteq> 0 \<longleftrightarrow> authenticates pl h)
       \<and> (authenticates pl h \<longrightarrow> anam_get pl h = (decode_addr h, pl))
       \<and> (h = ANAM_NULL \<longrightarrow> anam_get pl h = (0, pl))
       \<and> (h \<noteq> ANAM_NULL \<and> \<not> authenticates pl h \<longrightarrow>
            anam_get pl h = (0, pl\<lparr>anamnesis_count := anamnesis_count pl + 1\<rparr>))"
  using in_slot_region_nonzero [OF assms, of "decode_addr h"]
  by (auto simp: anam_get_def authenticates_def anam_is_null_def in_pool_iff Let_def)

theorem anam_get_authenticates_witness:
  "slots_base one_slot_pool \<noteq> 0
   \<and> authenticates (snd (anam_alloc one_slot_pool)) (fst (anam_alloc one_slot_pool))
   \<and> fst (anam_get (snd (anam_alloc one_slot_pool)) (fst (anam_alloc one_slot_pool))) \<noteq> 0
   \<and> \<not> authenticates (snd (anam_alloc one_slot_pool)) 0x1012
   \<and> fst (anam_get (snd (anam_alloc one_slot_pool)) 0x1012) = 0
   \<and> anamnesis_count (snd (anam_get (snd (anam_alloc one_slot_pool)) 0x1012))
       = anamnesis_count (snd (anam_alloc one_slot_pool)) + 1"
proof -
  let ?p = "snd (anam_alloc one_slot_pool)"
  have b: "slots_base ?p \<noteq> 0" "slots_base one_slot_pool \<noteq> 0"
    by (simp_all add: one_slot_pool_alloc) (simp_all add: one_slot_pool_val)
  have a: "authenticates ?p (fst (anam_alloc one_slot_pool))"
    by (simp add: one_slot_pool_alloc)
      (simp add: one_slot_pool_val authenticates_def ANAM_NULL_def anam_state_def
        ANAM_STATE_LIVE_def in_slot_region_def decode_addr_def ANAM_ADDR_MASK_def
        decode_gen_def drop_bit_eq_div)
  have n: "\<not> authenticates ?p 0x1012"
    by (simp add: authenticates_def anam_state_def ANAM_STATE_LIVE_def)
  have z: "(0x1012 :: 64 word) \<noteq> ANAM_NULL"
    by (simp add: ANAM_NULL_def)
  show ?thesis
    using b a n z anam_get_authenticates [OF b(1), of "fst (anam_alloc one_slot_pool)"]
      anam_get_authenticates [OF b(1), of "0x1012"]
    by auto
qed

theorem anam_get_null_counterexample:
  "fst (anam_get one_slot_pool ANAM_NULL) = 0
   \<and> anamnesis_count (snd (anam_get one_slot_pool ANAM_NULL))
       \<noteq> anamnesis_count one_slot_pool + 1"
  by (simp add: anam_get_def anam_is_null_def one_slot_pool_val)


text \<open>
  Claim C2, as the code has it.  \<^verbatim>\<open>anam_release\<close> of the null handle returns false and
  changes nothing.  For a non-null handle that does not authenticate (state not LIVE,
  address outside the slot region, or generation differing from the header's) it returns
  false and increments \<open>anamnesis_count\<close> by exactly one.  On acceptance it returns true,
  the header generation becomes the old one plus one modulo \<open>2 ^ 16\<close>, the slot is pushed:
  its link is the old free head and the new free head is the handle of the slot with
  state FREE and the new generation; \<open>slots_free\<close> and \<open>release_count\<close> grow by one.
\<close>

theorem anam_release_cases:
  fixes pl :: "'p::zero AnamPool"
  shows "(h = ANAM_NULL \<longrightarrow> anam_release pl h = (False, pl))
       \<and> (h \<noteq> ANAM_NULL \<and> \<not> authenticates pl h \<longrightarrow>
            anam_release pl h = (False, pl\<lparr>anamnesis_count := anamnesis_count pl + 1\<rparr>))
       \<and> (authenticates pl h \<longrightarrow>
            fst (anam_release pl h)
          \<and> hdr_generation (snd (anam_release pl h)) (get_header (decode_addr h)) = decode_gen h + 1
          \<and> unat (hdr_generation (snd (anam_release pl h)) (get_header (decode_addr h))) = (unat (decode_gen h) + 1) mod 2 ^ 16
          \<and> free_head (snd (anam_release pl h))
               = encode_handle (decode_gen h + 1) (decode_addr h) ANAM_STATE_FREE
          \<and> hdr_next (snd (anam_release pl h)) (get_header (decode_addr h)) = free_head pl
          \<and> slots_free (snd (anam_release pl h)) = slots_free pl + 1
          \<and> release_count (snd (anam_release pl h)) = release_count pl + 1
          \<and> anamnesis_count (snd (anam_release pl h)) = anamnesis_count pl)"
  by (auto simp: anam_release_def authenticates_def anam_is_null_def in_pool_iff Let_def unat_word_ariths)


theorem anam_release_cases_witness:
  "authenticates (snd (anam_alloc one_slot_pool)) (fst (anam_alloc one_slot_pool))
   \<and> fst (anam_release (snd (anam_alloc one_slot_pool)) (fst (anam_alloc one_slot_pool)))
   \<and> \<not> authenticates (snd (anam_alloc one_slot_pool)) 0x1012
   \<and> \<not> fst (anam_release (snd (anam_alloc one_slot_pool)) 0x1012)
   \<and> anamnesis_count (snd (anam_release (snd (anam_alloc one_slot_pool)) 0x1012))
       = anamnesis_count (snd (anam_alloc one_slot_pool)) + 1"
proof -
  let ?p = "snd (anam_alloc one_slot_pool)"
  have a: "authenticates ?p (fst (anam_alloc one_slot_pool))"
    by (simp add: one_slot_pool_alloc)
      (simp add: one_slot_pool_val authenticates_def ANAM_NULL_def anam_state_def
        ANAM_STATE_LIVE_def in_slot_region_def decode_addr_def ANAM_ADDR_MASK_def
        decode_gen_def drop_bit_eq_div)
  have n: "\<not> authenticates ?p 0x1012"
    by (simp add: authenticates_def anam_state_def ANAM_STATE_LIVE_def)
  have z: "(0x1012 :: 64 word) \<noteq> ANAM_NULL"
    by (simp add: ANAM_NULL_def)
  show ?thesis
    using a n z anam_release_cases [of "fst (anam_alloc one_slot_pool)" ?p]
      anam_release_cases [of "0x1012" ?p]
    by simp
qed

theorem anam_release_null_counterexample:
  "\<not> fst (anam_release one_slot_pool ANAM_NULL)
   \<and> anamnesis_count (snd (anam_release one_slot_pool ANAM_NULL))
       \<noteq> anamnesis_count one_slot_pool + 1"
  by (simp add: anam_release_def anam_is_null_def one_slot_pool_val)

section \<open>Slot addresses\<close>

lemma unat_slot_addr:
  assumes ok: "platform_ok pl" and i: "i < unat (slot_count pl)"
  shows "unat (slot_addr pl i) = unat (slots_base pl) + i * unat (slot_stride pl)"
proof -
  let ?b = "unat (slots_base pl)" and ?s = "unat (slot_stride pl)" and ?c = "unat (slot_count pl)"
  have le: "?b + ?c * ?s \<le> 2 ^ 48"
    using ok by (simp add: platform_ok_def)
  have "i * ?s \<le> ?c * ?s"
    using i by (simp add: mult_le_mono1)
  with le have b: "?b + i * ?s \<le> 2 ^ 48" by linarith
  have p: "(2::nat) ^ 48 < 2 ^ 64" by simp
  have i64: "i < 2 ^ 64"
    using i unsigned_less [of "slot_count pl", where 'a = nat] by simp
  have "unat (of_nat i :: 64 word) = i"
    using i64 by (simp add: unat_of_nat)
  then have m: "unat (of_nat i * slot_stride pl) = i * ?s"
    using b p by (simp add: unat_word_ariths)
  show ?thesis
    unfolding slot_addr_def slot_from_index_def
    using m b p by (simp add: unat_word_ariths)
qed

lemma slot_addr_bounds:
  assumes ok: "platform_ok pl" and i: "i < unat (slot_count pl)"
  shows "unat (slot_addr pl i) mod 8 = 0" "0 < unat (slot_addr pl i)"
    "unat (slot_addr pl i) < 2 ^ 48"
proof -
  let ?b = "unat (slots_base pl)" and ?s = "unat (slot_stride pl)" and ?c = "unat (slot_count pl)"
  note u = unat_slot_addr [OF ok i]
  have f: "?b mod 8 = 0" "0 < ?b" "?s mod 8 = 0" "0 < ?s" "?b + ?c * ?s \<le> 2 ^ 48"
    using ok by (simp_all add: platform_ok_def)
  show "unat (slot_addr pl i) mod 8 = 0"
    unfolding u using f(1,3) by (simp add: mod_add_eq [symmetric] mod_mult_right_eq [symmetric] del: mod_add_eq mod_mult_right_eq)
  show "0 < unat (slot_addr pl i)"
    unfolding u using f(2) by simp
  have "i * ?s < ?c * ?s"
    using i f(4) by (rule mult_strict_right_mono)
  then show "unat (slot_addr pl i) < 2 ^ 48"
    unfolding u using f(5) by linarith
qed

lemma slot_addr_inj:
  assumes ok: "platform_ok pl" and i: "i < unat (slot_count pl)" and j: "j < unat (slot_count pl)"
    and e: "slot_addr pl i = slot_addr pl j"
  shows "i = j"
proof -
  have "unat (slot_addr pl i) = unat (slot_addr pl j)" using e by simp
  then have "i * unat (slot_stride pl) = j * unat (slot_stride pl)"
    by (simp add: unat_slot_addr [OF ok i] unat_slot_addr [OF ok j])
  moreover have "0 < unat (slot_stride pl)" using ok by (simp add: platform_ok_def)
  ultimately show ?thesis by simp
qed

lemma slot_addr_in_region:
  assumes ok: "platform_ok pl" and i: "i < unat (slot_count pl)"
  shows "in_slot_region pl (slot_addr pl i)"
proof -
  let ?b = "unat (slots_base pl)" and ?s = "unat (slot_stride pl)" and ?c = "unat (slot_count pl)"
  have f: "0 < ?s" "?b + ?c * ?s \<le> 2 ^ 48"
    using ok by (simp_all add: platform_ok_def)
  have p: "(2::nat) ^ 48 < 2 ^ 64" by simp
  have "unat (slot_count pl * slot_stride pl) = ?c * ?s"
    using f(2) p by (simp add: unat_word_ariths)
  then have e: "unat (slots_base pl + slot_count pl * slot_stride pl) = ?b + ?c * ?s"
    using f(2) p by (simp add: unat_word_ariths)
  have "i * ?s < ?c * ?s"
    using i f(1) by (rule mult_strict_right_mono)
  then show ?thesis
    by (simp add: in_slot_region_def word_le_nat_alt word_less_nat_alt e unat_slot_addr [OF ok i])
qed

lemma slot_addr_index:
  assumes ok: "platform_ok pl" and i: "i < unat (slot_count pl)"
  shows "unat ((slot_addr pl i - slots_base pl) div slot_stride pl) = i"
proof -
  let ?b = "unat (slots_base pl)" and ?s = "unat (slot_stride pl)" and ?c = "unat (slot_count pl)"
  have f: "0 < ?s" using ok by (simp add: platform_ok_def)
  have "slots_base pl \<le> slot_addr pl i"
    by (simp add: word_le_nat_alt unat_slot_addr [OF ok i])
  then have "unat (slot_addr pl i - slots_base pl) = i * ?s"
    by (simp add: unat_sub unat_slot_addr [OF ok i])
  then show ?thesis
    using f by (simp add: unat_div)
qed

lemma slot_addrs_props:
  assumes ok: "platform_ok pl" and a: "a \<in> slot_addrs pl"
  shows "a AND ANAM_ADDR_MASK = a" "a \<noteq> 0" "in_slot_region pl a"
    "unat ((a - slots_base pl) div slot_stride pl) < unat (slot_count pl)"
proof -
  from a obtain i where i: "i < unat (slot_count pl)" "a = slot_addr pl i"
    by (auto simp: slot_addrs_def)
  show "a AND ANAM_ADDR_MASK = a"
    unfolding i(2) using slot_addr_bounds [OF ok i(1)] by (intro addr_mask_id)
  show "a \<noteq> 0"
    using slot_addr_bounds(2) [OF ok i(1)] unfolding i(2) by (auto simp: unat_gt_0)
  show "in_slot_region pl a"
    unfolding i(2) by (rule slot_addr_in_region [OF ok i(1)])
  show "unat ((a - slots_base pl) div slot_stride pl) < unat (slot_count pl)"
    unfolding i(2) by (simp add: slot_addr_index [OF ok i(1)] i(1))
qed


lemma get_header_inj [simp]: "get_header a = get_header b \<longleftrightarrow> a = b"
  by (simp add: get_header_def)

section \<open>The pool invariant\<close>

lemma free_chain_frame:
  assumes "\<forall>a\<in>set fs. hdr_next pl' (get_header a) = hdr_next pl (get_header a)
                    \<and> hdr_generation pl' (get_header a) = hdr_generation pl (get_header a)"
  shows "free_chain pl' h fs = free_chain pl h fs"
  using assms by (induction fs arbitrary: h) auto

lemma encode_live_props:
  "anam_state (encode_handle g a ANAM_STATE_LIVE) = ANAM_STATE_LIVE"
  "encode_handle g a ANAM_STATE_LIVE \<noteq> ANAM_NULL"
proof -
  show s: "anam_state (encode_handle g a ANAM_STATE_LIVE) = ANAM_STATE_LIVE"
    by (simp add: anam_state_encode ANAM_STATE_LIVE_def)
  have "anam_state ANAM_NULL \<noteq> ANAM_STATE_LIVE"
    by (simp add: anam_state_def ANAM_NULL_def ANAM_STATE_LIVE_def)
  with s show "encode_handle g a ANAM_STATE_LIVE \<noteq> ANAM_NULL" by metis
qed

lemma encode_free_nonnull:
  assumes "a AND ANAM_ADDR_MASK = a" "a \<noteq> 0"
  shows "encode_handle g a ANAM_STATE_FREE \<noteq> ANAM_NULL"
proof
  assume "encode_handle g a ANAM_STATE_FREE = ANAM_NULL"
  then have "decode_addr (encode_handle g a ANAM_STATE_FREE) = decode_addr ANAM_NULL" by simp
  then show False
    using assms by (simp add: decode_addr_encode) (simp add: decode_addr_def ANAM_NULL_def)
qed

lemma anam_alloc_empty:
  "free_head pl = ANAM_NULL \<Longrightarrow> anam_alloc pl = (ANAM_NULL, pl)"
  by (simp add: anam_alloc_def anam_is_null_def)

lemma anam_alloc_fields:
  fixes pl :: "'p::zero AnamPool"
  assumes h: "free_head pl = encode_handle g a ANAM_STATE_FREE"
    and a: "a AND ANAM_ADDR_MASK = a" "a \<noteq> 0"
    and g: "g = hdr_generation pl (get_header a)"
  shows "fst (anam_alloc pl) = encode_handle g a ANAM_STATE_LIVE"
    and "hdr_generation (snd (anam_alloc pl)) = hdr_generation pl"
    and "hdr_next (snd (anam_alloc pl)) = (hdr_next pl)(get_header a := ANAM_NULL)"
    and "free_head (snd (anam_alloc pl)) = hdr_next pl (get_header a)"
    and "slots_free (snd (anam_alloc pl)) = slots_free pl - 1"
    and "alloc_count (snd (anam_alloc pl)) = alloc_count pl + 1"
    and "release_count (snd (anam_alloc pl)) = release_count pl"
    and "anamnesis_count (snd (anam_alloc pl)) = anamnesis_count pl"
    and "slots_base (snd (anam_alloc pl)) = slots_base pl"
    and "slot_stride (snd (anam_alloc pl)) = slot_stride pl"
    and "slot_count (snd (anam_alloc pl)) = slot_count pl"
    and "zero_on_alloc (snd (anam_alloc pl)) = zero_on_alloc pl"
    and "zero_on_release (snd (anam_alloc pl)) = zero_on_release pl"
    and "payload (snd (anam_alloc pl)) =
           (if zero_on_alloc pl then (payload pl)(a := 0) else payload pl)"
    and "generation_max (snd (anam_alloc pl)) =
           (if g > generation_max pl then g else generation_max pl)"
proof -
  have n: "\<not> anam_is_null (free_head pl)"
    using encode_free_nonnull [OF a] by (simp add: h anam_is_null_def)
  have d: "decode_addr (free_head pl) = a"
    by (simp add: h decode_addr_encode a)
  note defs = anam_alloc_def Let_def n d g
  show "fst (anam_alloc pl) = encode_handle g a ANAM_STATE_LIVE" by (simp add: defs)
  show "hdr_generation (snd (anam_alloc pl)) = hdr_generation pl" by (simp add: defs)
  show "hdr_next (snd (anam_alloc pl)) = (hdr_next pl)(get_header a := ANAM_NULL)"
    by (simp add: defs)
  show "free_head (snd (anam_alloc pl)) = hdr_next pl (get_header a)" by (simp add: defs)
  show "slots_free (snd (anam_alloc pl)) = slots_free pl - 1" by (simp add: defs)
  show "alloc_count (snd (anam_alloc pl)) = alloc_count pl + 1" by (simp add: defs)
  show "release_count (snd (anam_alloc pl)) = release_count pl" by (simp add: defs)
  show "anamnesis_count (snd (anam_alloc pl)) = anamnesis_count pl" by (simp add: defs)
  show "slots_base (snd (anam_alloc pl)) = slots_base pl" by (simp add: defs)
  show "slot_stride (snd (anam_alloc pl)) = slot_stride pl" by (simp add: defs)
  show "slot_count (snd (anam_alloc pl)) = slot_count pl" by (simp add: defs)
  show "zero_on_alloc (snd (anam_alloc pl)) = zero_on_alloc pl" by (simp add: defs)
  show "zero_on_release (snd (anam_alloc pl)) = zero_on_release pl" by (simp add: defs)
  show "payload (snd (anam_alloc pl)) =
           (if zero_on_alloc pl then (payload pl)(a := 0) else payload pl)" by (simp add: defs)
  show "generation_max (snd (anam_alloc pl)) =
           (if g > generation_max pl then g else generation_max pl)" by (simp add: defs)
qed

lemma live_handle_authenticates:
  assumes ok: "platform_ok pl" and l: "live_handle pl h"
  shows "authenticates pl h" "decode_addr h \<noteq> 0"
proof -
  let ?a = "decode_addr h"
  have a: "?a \<in> slot_addrs pl"
    and e: "h = encode_handle (hdr_generation pl (get_header ?a)) ?a ANAM_STATE_LIVE"
    using l by (simp_all add: live_handle_def)
  have "anam_state h = ANAM_STATE_LIVE" "h \<noteq> ANAM_NULL"
    "decode_gen h = hdr_generation pl (get_header ?a)"
    by (subst e, simp add: encode_live_props decode_gen_encode)+
  then show "authenticates pl h"
    using slot_addrs_props(3) [OF ok a] by (simp add: authenticates_def)
  show "?a \<noteq> 0" using slot_addrs_props(2) [OF ok a] .
qed

lemma anam_get_live:
  assumes ok: "platform_ok pl" and l: "live_handle pl h"
  shows "anam_get pl h = (decode_addr h, pl)"
  using live_handle_authenticates(1) [OF ok l]
  by (simp add: anam_get_def authenticates_def anam_is_null_def in_pool_iff Let_def)

lemma anam_release_fields:
  fixes pl :: "'p::zero AnamPool"
  assumes au: "authenticates pl h"
  defines "a \<equiv> decode_addr h"
  shows "fst (anam_release pl h)"
    and "hdr_generation (snd (anam_release pl h)) =
           (hdr_generation pl)(get_header a := hdr_generation pl (get_header a) + 1)"
    and "hdr_next (snd (anam_release pl h)) = (hdr_next pl)(get_header a := free_head pl)"
    and "free_head (snd (anam_release pl h)) =
           encode_handle (hdr_generation pl (get_header a) + 1) a ANAM_STATE_FREE"
    and "slots_free (snd (anam_release pl h)) = slots_free pl + 1"
    and "alloc_count (snd (anam_release pl h)) = alloc_count pl"
    and "release_count (snd (anam_release pl h)) = release_count pl + 1"
    and "anamnesis_count (snd (anam_release pl h)) = anamnesis_count pl"
    and "slots_base (snd (anam_release pl h)) = slots_base pl"
    and "slot_stride (snd (anam_release pl h)) = slot_stride pl"
    and "slot_count (snd (anam_release pl h)) = slot_count pl"
    and "zero_on_alloc (snd (anam_release pl h)) = zero_on_alloc pl"
    and "zero_on_release (snd (anam_release pl h)) = zero_on_release pl"
    and "payload (snd (anam_release pl h)) =
           (if zero_on_release pl then (payload pl)(a := 0) else payload pl)"
    and "generation_max (snd (anam_release pl h)) = generation_max pl"
  using au
  by (simp_all add: anam_release_def authenticates_def anam_is_null_def in_pool_iff Let_def a_def)

lemma anam_release_rejected:
  "\<not> fst (anam_release pl h) \<Longrightarrow>
     snd (anam_release pl h) = pl
     \<or> snd (anam_release pl h) = pl\<lparr>anamnesis_count := anamnesis_count pl + 1\<rparr>"
  by (auto simp: anam_release_def Let_def split: if_splits)

lemma anam_get_state:
  "snd (anam_get pl h) = pl \<or> snd (anam_get pl h) = pl\<lparr>anamnesis_count := anamnesis_count pl + 1\<rparr>"
  by (auto simp: anam_get_def Let_def split: if_splits)

lemma pool_inv_anamnesis_count [simp]:
  "pool_inv (pl\<lparr>anamnesis_count := c\<rparr>) fs live = pool_inv pl fs live"
proof -
  have "free_chain (pl\<lparr>anamnesis_count := c\<rparr>) h fs = free_chain pl h fs" for h
    by (rule free_chain_frame) simp
  then show ?thesis
    by (simp add: pool_inv_def platform_ok_def slot_addrs_def slot_addr_def slot_from_index_def
        live_handle_def)
qed

lemma pool_inv_alloc:
  fixes pl :: "'p::zero AnamPool"
  assumes inv: "pool_inv pl (a # fs) live"
  defines "h \<equiv> encode_handle (hdr_generation pl (get_header a)) a ANAM_STATE_LIVE"
  shows "fst (anam_alloc pl) = h" and "h \<notin> live" and "h \<noteq> ANAM_NULL" and "decode_addr h = a"
    and "pool_inv (snd (anam_alloc pl)) fs (insert h live)"
proof -
  let ?pl' = "snd (anam_alloc pl)"
  let ?g = "hdr_generation pl (get_header a)"
  have ok: "platform_ok pl"
    and ch: "free_head pl = encode_handle ?g a ANAM_STATE_FREE"
            "free_chain pl (hdr_next pl (get_header a)) fs"
    and dist: "a \<notin> set fs" "distinct fs"
    and sub: "a \<in> slot_addrs pl" "set fs \<subseteq> slot_addrs pl"
    and fin: "finite live"
    and lv: "\<forall>h\<in>live. live_handle pl h"
    and inj: "inj_on decode_addr live"
    and dis: "a \<notin> decode_addr ` live" "decode_addr ` live \<inter> set fs = {}"
    and cnt: "Suc (length fs) + card live = unat (slot_count pl)"
    and sf: "slots_free pl = of_nat (Suc (length fs))"
    and ar: "alloc_count pl - release_count pl = of_nat (card live)"
    using inv by (auto simp: pool_inv_def)
  note ap = slot_addrs_props [OF ok sub(1)]
  note f = anam_alloc_fields [OF ch(1) ap(1) ap(2) refl]
  show fst: "fst (anam_alloc pl) = h" by (simp add: f(1) h_def)
  show da: "decode_addr h = a" by (simp add: h_def decode_addr_encode ap(1))
  show nl: "h \<notin> live" using dis(1) da by auto
  show "h \<noteq> ANAM_NULL" by (simp add: h_def encode_live_props)
  have lay: "platform_ok ?pl'" "slot_addrs ?pl' = slot_addrs pl"
    using ok by (simp_all add: platform_ok_def slot_addrs_def slot_addr_def slot_from_index_def f)
  have "free_chain ?pl' (hdr_next pl (get_header a)) fs = free_chain pl (hdr_next pl (get_header a)) fs"
    using dist(1) by (intro free_chain_frame) (auto simp: f)
  then have c': "free_chain ?pl' (free_head ?pl') fs"
    using ch(2) by (simp add: f)
  have lh: "live_handle ?pl' h"
    by (simp add: live_handle_def lay da sub(1) f) (simp add: h_def)
  have lv': "\<forall>h'\<in>insert h live. live_handle ?pl' h'"
    using lv lh by (auto simp: live_handle_def lay f)
  have inj': "inj_on decode_addr (insert h live)"
    using inj dis(1) da by (auto simp: inj_on_insert)
  have dis': "decode_addr ` insert h live \<inter> set fs = {}"
    using dis(2) dist(1) da by simp
  have cnt': "length fs + card (insert h live) = unat (slot_count ?pl')"
    using cnt fin nl by (simp add: f)
  have sf': "slots_free ?pl' = of_nat (length fs)"
    by (simp add: f sf)
  have ar': "alloc_count ?pl' - release_count ?pl' = of_nat (card (insert h live))"
    using ar fin nl by (simp add: f)
  show "pool_inv ?pl' fs (insert h live)"
    unfolding pool_inv_def
    using lay c' dist(2) sub(2) fin lv' inj' dis' cnt' sf' ar' by simp
qed

lemma pool_inv_alloc_empty:
  assumes "pool_inv pl [] live"
  shows "anam_alloc pl = (ANAM_NULL, pl)"
  using assms by (simp add: pool_inv_def anam_alloc_empty)

lemma pool_inv_release:
  fixes pl :: "'p::zero AnamPool"
  assumes inv: "pool_inv pl fs live" and h: "h \<in> live"
  shows "fst (anam_release pl h)"
    and "pool_inv (snd (anam_release pl h)) (decode_addr h # fs) (live - {h})"
proof -
  let ?pl' = "snd (anam_release pl h)"
  let ?a = "decode_addr h"
  let ?g = "hdr_generation pl (get_header ?a)"
  have ok: "platform_ok pl"
    and ch: "free_chain pl (free_head pl) fs"
    and dist: "distinct fs"
    and sub: "set fs \<subseteq> slot_addrs pl"
    and fin: "finite live"
    and lv: "\<forall>h\<in>live. live_handle pl h"
    and inj: "inj_on decode_addr live"
    and dis: "decode_addr ` live \<inter> set fs = {}"
    and cnt: "length fs + card live = unat (slot_count pl)"
    and sf: "slots_free pl = of_nat (length fs)"
    and ar: "alloc_count pl - release_count pl = of_nat (card live)"
    using inv by (auto simp: pool_inv_def)
  have lh: "live_handle pl h" using lv h by blast
  note au = live_handle_authenticates(1) [OF ok lh]
  note f = anam_release_fields [OF au]
  show "fst (anam_release pl h)" by (rule f(1))
  have a_in: "?a \<in> slot_addrs pl" using lh by (simp add: live_handle_def)
  have a_nfs: "?a \<notin> set fs" using dis h by auto
  have lay: "platform_ok ?pl'" "slot_addrs ?pl' = slot_addrs pl"
    using ok by (simp_all add: platform_ok_def slot_addrs_def slot_addr_def slot_from_index_def f)
  have "free_chain ?pl' (free_head pl) fs = free_chain pl (free_head pl) fs"
    using a_nfs by (intro free_chain_frame) (auto simp: f)
  then have c': "free_chain ?pl' (free_head ?pl') (?a # fs)"
    using ch by (simp add: f)
  have lv': "\<forall>h'\<in>live - {h}. live_handle ?pl' h'"
  proof
    fix h' assume h': "h' \<in> live - {h}"
    then have "decode_addr h' \<noteq> ?a"
      using inj h by (auto dest: inj_onD)
    moreover have "live_handle pl h'" using lv h' by blast
    ultimately show "live_handle ?pl' h'"
      by (simp add: live_handle_def lay f)
  qed
  have inj': "inj_on decode_addr (live - {h})"
    using inj by (rule inj_on_diff)
  have "?a \<notin> decode_addr ` (live - {h})"
    using inj h by (auto dest: inj_onD)
  then have dis': "decode_addr ` (live - {h}) \<inter> set (?a # fs) = {}"
    using dis by auto
  have c1: "0 < card live" using fin h by (auto simp: card_gt_0_iff)
  have cnt': "length (?a # fs) + card (live - {h}) = unat (slot_count ?pl')"
    using cnt fin h c1 by (simp add: f)
  have sf': "slots_free ?pl' = of_nat (length (?a # fs))"
    by (simp add: f sf)
  have "card live = Suc (card (live - {h}))"
    using card_Suc_Diff1 [OF fin h] by simp
  then have "of_nat (card live) = (of_nat (card (live - {h})) :: 64 word) + 1"
    by simp
  then have ar': "alloc_count ?pl' - release_count ?pl' = of_nat (card (live - {h}))"
    using ar by (simp add: f algebra_simps)
  show "pool_inv ?pl' (?a # fs) (live - {h})"
    unfolding pool_inv_def
    using lay c' dist a_nfs sub a_in fin lv' inj' dis' cnt' sf' ar' by simp
qed



lemma create_loop_fields:
  "slots_base (anam_pool_create_loop n pl) = slots_base pl"
  "slot_stride (anam_pool_create_loop n pl) = slot_stride pl"
  "slot_count (anam_pool_create_loop n pl) = slot_count pl"
  "slots_free (anam_pool_create_loop n pl) = slots_free pl"
  "alloc_count (anam_pool_create_loop n pl) = alloc_count pl"
  "release_count (anam_pool_create_loop n pl) = release_count pl"
  "anamnesis_count (anam_pool_create_loop n pl) = anamnesis_count pl"
  "generation_max (anam_pool_create_loop n pl) = generation_max pl"
  "zero_on_alloc (anam_pool_create_loop n pl) = zero_on_alloc pl"
  "zero_on_release (anam_pool_create_loop n pl) = zero_on_release pl"
  "payload (anam_pool_create_loop n pl) = payload pl"
  "slot_size (anam_pool_create_loop n pl) = slot_size pl"
  by (induction n arbitrary: pl; simp add: Let_def slot_from_index_def)+

lemma create_loop_chain:
  assumes "platform_ok pl" "n \<le> unat (slot_count pl)"
    and "free_chain pl (free_head pl) fs"
    and "set fs \<inter> slot_addr pl ` {..<n} = {}"
  shows "free_chain (anam_pool_create_loop n pl) (free_head (anam_pool_create_loop n pl))
           (map (slot_addr pl) [0..<n] @ fs)"
  using assms
proof (induction n arbitrary: pl fs)
  case 0
  then show ?case by simp
next
  case (Suc i)
  let ?a = "slot_addr pl i"
  let ?pl1 = "pl\<lparr>hdr_generation := (hdr_generation pl)(get_header ?a := 0),
                  hdr_next := (hdr_next pl)(get_header ?a := free_head pl),
                  free_head := encode_handle 0 ?a ANAM_STATE_FREE\<rparr>"
  have step: "anam_pool_create_loop (Suc i) pl = anam_pool_create_loop i ?pl1"
    by (simp add: Let_def slot_addr_def)
  have lay: "platform_ok ?pl1" "slot_addr ?pl1 = slot_addr pl" "slot_count ?pl1 = slot_count pl"
    using Suc.prems(1) by (simp_all add: platform_ok_def slot_addr_def slot_from_index_def fun_eq_iff)
  have nfs: "?a \<notin> set fs" using Suc.prems(4) by auto
  have "free_chain ?pl1 (free_head pl) fs = free_chain pl (free_head pl) fs"
    using nfs by (intro free_chain_frame) auto
  then have ch: "free_chain ?pl1 (free_head ?pl1) (?a # fs)"
    using Suc.prems(3) by simp
  have "?a \<notin> slot_addr pl ` {..<i}"
  proof
    assume "?a \<in> slot_addr pl ` {..<i}"
    then obtain j where j: "j < i" "slot_addr pl i = slot_addr pl j" by auto
    then have "i = j"
      using Suc.prems(1,2) by (intro slot_addr_inj [of pl]) auto
    with j(1) show False by simp
  qed
  then have d: "set (?a # fs) \<inter> slot_addr ?pl1 ` {..<i} = {}"
    using Suc.prems(4) by (auto simp: lay)
  have "free_chain (anam_pool_create_loop i ?pl1) (free_head (anam_pool_create_loop i ?pl1))
          (map (slot_addr ?pl1) [0..<i] @ (?a # fs))"
    using Suc.prems(2) by (intro Suc.IH [OF lay(1) _ ch d]) (simp add: lay)
  then show ?case
    by (simp only: step) (simp add: lay)
qed

lemma anam_pool_create_Some:
  assumes "anam_pool_create (Some cfg) calloc_ok mem raw = Some pl"
  obtains pl0 where "pl = anam_pool_create_loop (unat (cfg_slot_count cfg)) pl0"
    "free_head pl0 = ANAM_NULL" "slot_count pl0 = cfg_slot_count cfg"
    "slots_free pl0 = cfg_slot_count cfg" "alloc_count pl0 = 0" "release_count pl0 = 0"
    "anamnesis_count pl0 = 0" "generation_max pl0 = 0"
    "zero_on_alloc pl0 = cfg_zero_on_alloc cfg" "zero_on_release pl0 = cfg_zero_on_release cfg"
    "payload pl0 = payload raw" "slot_size pl0 = cfg_slot_size cfg"
  using assms unfolding anam_pool_create_def
  by (auto simp: Let_def split: if_splits)

lemma anam_pool_create_inv:
  assumes c: "anam_pool_create (Some cfg) calloc_ok mem raw = Some pl" and ok: "platform_ok pl"
  shows "pool_inv pl (map (slot_addr pl) [0..<unat (slot_count pl)]) {}"
    and "slot_count pl = cfg_slot_count cfg" and "anamnesis_count pl = 0"
    and "generation_max pl = 0" and "zero_on_alloc pl = cfg_zero_on_alloc cfg"
    and "zero_on_release pl = cfg_zero_on_release cfg" and "payload pl = payload raw"
proof -
  from c obtain pl0 where p: "pl = anam_pool_create_loop (unat (cfg_slot_count cfg)) pl0"
    "free_head pl0 = ANAM_NULL" "slot_count pl0 = cfg_slot_count cfg"
    "slots_free pl0 = cfg_slot_count cfg" "alloc_count pl0 = 0" "release_count pl0 = 0"
    "anamnesis_count pl0 = 0" "generation_max pl0 = 0"
    "zero_on_alloc pl0 = cfg_zero_on_alloc cfg" "zero_on_release pl0 = cfg_zero_on_release cfg"
    "payload pl0 = payload raw" "slot_size pl0 = cfg_slot_size cfg"
    by (rule anam_pool_create_Some)
  let ?n = "unat (cfg_slot_count cfg)"
  have ok0: "platform_ok pl0"
    using ok by (simp add: p(1) platform_ok_def create_loop_fields)
  have sa: "slot_addr pl = slot_addr pl0"
    by (simp add: p(1) slot_addr_def slot_from_index_def create_loop_fields fun_eq_iff)
  show sc: "slot_count pl = cfg_slot_count cfg"
    by (simp add: p create_loop_fields)
  have "free_chain pl (free_head pl) (map (slot_addr pl0) [0..<?n] @ [])"
    unfolding p(1) by (rule create_loop_chain [OF ok0]) (simp_all add: p)
  then have ch: "free_chain pl (free_head pl) (map (slot_addr pl) [0..<?n])"
    by (simp add: sa)
  have "inj_on (slot_addr pl) {0..<?n}"
    using slot_addr_inj [OF ok] by (auto simp: inj_on_def sc)
  then have di: "distinct (map (slot_addr pl) [0..<?n])"
    by (simp add: distinct_map)
  have su: "set (map (slot_addr pl) [0..<?n]) \<subseteq> slot_addrs pl"
    by (auto simp: slot_addrs_def sc)
  have sf: "slots_free pl = of_nat ?n" "alloc_count pl - release_count pl = of_nat (card ({} :: AnamHandle set))"
    by (simp_all add: p create_loop_fields)
  show "pool_inv pl (map (slot_addr pl) [0..<unat (slot_count pl)]) {}"
    unfolding pool_inv_def sc
    using ok ch di su sf by (simp add: sc)
  show "anamnesis_count pl = 0" "generation_max pl = 0" "zero_on_alloc pl = cfg_zero_on_alloc cfg"
    "zero_on_release pl = cfg_zero_on_release cfg" "payload pl = payload raw"
    by (simp_all add: p create_loop_fields)
qed

section \<open>Conservation\<close>



lemma pool_run_Nil [simp]: "pool_run s [] = s"
  by (simp add: pool_run_def)

lemma pool_run_Cons [simp]: "pool_run s (x # xs) = pool_run (pool_step s x) xs"
  by (simp add: pool_run_def)


lemma anam_pool_create_None:
  "anam_pool_create None c m r = anam_pool_create (Some ANAM_POOL_DEFAULT) c m r"
  by (simp add: anam_pool_create_def)





lemma one_slot_pool_platform_ok: "platform_ok one_slot_pool"
  by (simp add: platform_ok_def one_slot_pool_val)




section \<open>Double release\<close>

lemma anam_release_accepted_auth:
  "fst (anam_release pl h) \<Longrightarrow> authenticates pl h"
  by (auto simp: anam_release_def authenticates_def anam_is_null_def in_pool_iff Let_def
      split: if_splits)

lemma anam_release_not_auth:
  "h \<noteq> ANAM_NULL \<Longrightarrow> \<not> authenticates pl h \<Longrightarrow>
     anam_release pl h = (False, pl\<lparr>anamnesis_count := anamnesis_count pl + 1\<rparr>)"
  by (auto simp: anam_release_def authenticates_def anam_is_null_def in_pool_iff Let_def)

lemma anam_alloc_generation:
  "hdr_generation (snd (anam_alloc pl)) = hdr_generation pl"
  by (simp add: anam_alloc_def Let_def)

lemma anam_alloc_layout:
  "slots_base (snd (anam_alloc pl)) = slots_base pl"
  "slot_stride (snd (anam_alloc pl)) = slot_stride pl"
  "slot_count (snd (anam_alloc pl)) = slot_count pl"
  by (simp_all add: anam_alloc_def Let_def)

lemma anam_release_layout:
  "slots_base (snd (anam_release pl h)) = slots_base pl"
  "slot_stride (snd (anam_release pl h)) = slot_stride pl"
  "slot_count (snd (anam_release pl h)) = slot_count pl"
  by (simp_all add: anam_release_def Let_def)

lemma anam_get_layout:
  "slots_base (snd (anam_get pl h)) = slots_base pl"
  "slot_stride (snd (anam_get pl h)) = slot_stride pl"
  "slot_count (snd (anam_get pl h)) = slot_count pl"
  "hdr_generation (snd (anam_get pl h)) = hdr_generation pl"
  by (simp_all add: anam_get_def Let_def)

lemma pool_step_layout:
  "slots_base (fst (pool_step s x)) = slots_base (fst s)"
  "slot_stride (fst (pool_step s x)) = slot_stride (fst s)"
  "slot_count (fst (pool_step s x)) = slot_count (fst s)"
  by (cases s; cases x; simp add: split_beta anam_alloc_layout anam_release_layout anam_get_layout)+

lemma pool_run_layout:
  "slots_base (fst (pool_run s ops)) = slots_base (fst s)"
  "slot_stride (fst (pool_run s ops)) = slot_stride (fst s)"
  "slot_count (fst (pool_run s ops)) = slot_count (fst s)"
  by (induction ops arbitrary: s; simp add: pool_step_layout)+

lemma pool_step_generation:
  "hdr_generation (fst (pool_step s x)) (get_header a) =
     hdr_generation (fst s) (get_header a) + of_nat (accepted_releases a s [x])"
proof (cases s)
  case (Pair pl live)
  show ?thesis
  proof (cases x)
    case Alloc
    then show ?thesis by (simp add: Pair split_beta anam_alloc_generation)
  next
    case (Release h)
    show ?thesis
    proof (cases "fst (anam_release pl h)")
      case True
      note f = anam_release_fields(2) [OF anam_release_accepted_auth [OF True]]
      show ?thesis using True by (auto simp: Pair Release split_beta f)
    next
      case False
      then show ?thesis
        using anam_release_rejected [OF False] by (auto simp: Pair Release split_beta)
    qed
  next
    case (Get h)
    then show ?thesis by (simp add: Pair anam_get_layout)
  qed
qed

lemma accepted_releases_Cons:
  "accepted_releases a s (x # ops) = accepted_releases a s [x] + accepted_releases a (pool_step s x) ops"
  by (cases x) simp_all

lemma pool_run_generation:
  "hdr_generation (fst (pool_run s ops)) (get_header a) =
     hdr_generation (fst s) (get_header a) + of_nat (accepted_releases a s ops)"
proof (induction ops arbitrary: s)
  case Nil
  then show ?case by simp
next
  case (Cons x ops)
  show ?case
    by (simp add: Cons.IH pool_step_generation accepted_releases_Cons [of a s x ops] del: accepted_releases.simps)
qed

lemma of_nat_16_zero_iff: "(of_nat n :: 16 word) = 0 \<longleftrightarrow> n mod 65536 = 0"
  by (simp add: word_of_nat_eq_0_iff dvd_eq_mod_eq_0)

lemma on_boundary_slot_addr:
  assumes ok: "platform_ok pl" and r: "in_slot_region pl a" and b: "on_slot_boundary pl a"
  shows "a \<in> slot_addrs pl"
proof -
  let ?b = "unat (slots_base pl)" and ?s = "unat (slot_stride pl)" and ?c = "unat (slot_count pl)"
  have f: "0 < ?s" "?b + ?c * ?s \<le> 2 ^ 48"
    using ok by (simp_all add: platform_ok_def)
  have p: "(2::nat) ^ 48 < 2 ^ 64" by simp
  have "unat (slot_count pl * slot_stride pl) = ?c * ?s"
    using f(2) p by (simp add: unat_word_ariths)
  then have e: "unat (slots_base pl + slot_count pl * slot_stride pl) = ?b + ?c * ?s"
    using f(2) p by (simp add: unat_word_ariths)
  have lo: "?b \<le> unat a" and hi: "unat a < ?b + ?c * ?s"
    using r by (simp_all add: in_slot_region_def word_le_nat_alt word_less_nat_alt e)
  have off: "unat (a - slots_base pl) = unat a - ?b"
    using lo by (simp add: unat_sub word_le_nat_alt)
  have "unat ((a - slots_base pl) mod slot_stride pl) = 0"
    using b by (simp add: on_slot_boundary_def)
  then have m: "(unat a - ?b) mod ?s = 0"
    by (simp add: unat_mod off)
  define k where "k = (unat a - ?b) div ?s"
  have "(unat a - ?b) div ?s * ?s + (unat a - ?b) mod ?s = unat a - ?b"
    by (rule div_mult_mod_eq)
  then have ks: "k * ?s = unat a - ?b"
    unfolding k_def m by simp
  have "k * ?s < ?c * ?s" using hi lo by (simp add: ks)
  then have kc: "k < ?c" by simp
  have "unat (slot_addr pl k) = unat a"
    using lo by (simp add: unat_slot_addr [OF ok kc] ks)
  then have "slot_addr pl k = a" by (rule word_unat_eq_iff [THEN iffD2])
  then show ?thesis using kc by (auto simp: slot_addrs_def)
qed

lemma slot_addr_on_boundary:
  assumes ok: "platform_ok pl" and a: "a \<in> slot_addrs pl"
  shows "on_slot_boundary pl a"
proof -
  from a obtain i where i: "i < unat (slot_count pl)" "a = slot_addr pl i"
    by (auto simp: slot_addrs_def)
  have "slots_base pl \<le> slot_addr pl i"
    by (simp add: word_le_nat_alt unat_slot_addr [OF ok i(1)])
  then have "unat (slot_addr pl i - slots_base pl) = i * unat (slot_stride pl)"
    by (simp add: unat_sub unat_slot_addr [OF ok i(1)])
  then have "unat ((a - slots_base pl) mod slot_stride pl) = 0"
    by (simp add: unat_mod i(2))
  then show ?thesis by (simp add: on_slot_boundary_def unat_eq_zero)
qed

lemma links_step:
  fixes s :: "'p::zero AnamPool \<times> AnamHandle set"
  assumes ok: "platform_ok (fst s)" and l: "links_on_slots (fst s)" and p: "plain_op (fst s) x"
  shows "links_on_slots (fst (pool_step s x))"
proof (cases s)
  case (Pair pl live)
  have ok': "platform_ok pl" and l0: "slot_link pl (free_head pl)"
    and l1: "\<And>a. a \<in> slot_addrs pl \<Longrightarrow> slot_link pl (hdr_next pl (get_header a))"
    using ok l by (simp_all add: Pair links_on_slots_def)
  show ?thesis
  proof (cases x)
    case Alloc
    show ?thesis
    proof (cases "free_head pl = ANAM_NULL")
      case True
      then show ?thesis
        using l by (simp add: Pair Alloc anam_alloc_empty)
    next
      case False
      then have a: "decode_addr (free_head pl) \<in> slot_addrs pl"
        using l0 by (simp add: slot_link_def)
      let ?a = "decode_addr (free_head pl)"
      have sa: "slot_addrs (snd (anam_alloc pl)) = slot_addrs pl"
        by (simp add: slot_addrs_def slot_addr_def slot_from_index_def anam_alloc_layout)
      have fh: "free_head (snd (anam_alloc pl)) = hdr_next pl (get_header ?a)"
        and hn: "hdr_next (snd (anam_alloc pl)) = (hdr_next pl)(get_header ?a := ANAM_NULL)"
        using False by (simp_all add: anam_alloc_def Let_def anam_is_null_def)
      show ?thesis
        using l1 [OF a] l1
        by (auto simp: Pair Alloc split_beta links_on_slots_def slot_link_def sa fh hn)
    qed
  next
    case (Release h)
    show ?thesis
    proof (cases "fst (anam_release pl h)")
      case True
      note au = anam_release_accepted_auth [OF True]
      then have "in_slot_region pl (decode_addr h)" "h \<noteq> ANAM_NULL"
        "anam_state h = ANAM_STATE_LIVE"
        by (simp_all add: authenticates_def)
      moreover have "plain_handle pl h" using p by (simp add: Pair Release)
      ultimately have "on_slot_boundary pl (decode_addr h)"
        by (simp add: plain_handle_def anam_is_null_def in_pool_iff)
      with ok' \<open>in_slot_region pl (decode_addr h)\<close> have a: "decode_addr h \<in> slot_addrs pl"
        by (intro on_boundary_slot_addr)
      note f = anam_release_fields [OF au]
      have sa: "slot_addrs (snd (anam_release pl h)) = slot_addrs pl"
        by (simp add: slot_addrs_def slot_addr_def slot_from_index_def f)
      have d: "decode_addr (encode_handle g (decode_addr h) ANAM_STATE_FREE) = decode_addr h" for g
        by (simp add: decode_addr_encode slot_addrs_props(1) [OF ok' a])
      show ?thesis
        using l0 l1 a
        by (auto simp: Pair Release split_beta links_on_slots_def slot_link_def sa f d)
    next
      case False
      then show ?thesis
        using anam_release_rejected [OF False] l
        by (auto simp: Pair Release split_beta links_on_slots_def slot_link_def slot_addrs_def
            slot_addr_def slot_from_index_def)
    qed
  next
    case (Get h)
    then show ?thesis
      using anam_get_state [of pl h] l
      by (auto simp: Pair links_on_slots_def slot_link_def slot_addrs_def
          slot_addr_def slot_from_index_def)
  qed
qed

lemma plain_op_layout:
  assumes "slots_base q = slots_base pl" "slot_stride q = slot_stride pl"
    "slot_count q = slot_count pl"
  shows "plain_op q = plain_op pl"
proof
  fix x
  show "plain_op q x = plain_op pl x"
    using assms
    by (cases x) (simp_all add: plain_handle_def on_slot_boundary_def in_pool_iff in_slot_region_def)
qed

lemma platform_ok_layout:
  assumes "slots_base q = slots_base pl" "slot_stride q = slot_stride pl"
    "slot_count q = slot_count pl"
  shows "platform_ok q = platform_ok pl"
  using assms by (simp add: platform_ok_def)













section \<open>Typed and untyped memory\<close>

text \<open>
  On a platform that meets the expectation, with slots that hold their header and payload,
  the cells of different slot headers are different cells and the payload bytes that
  \<^verbatim>\<open>memset\<close> clears are in none of them.  Operations that are given plain handles reach
  headers through slot boundaries only, so a typed pool that represents a pool on untyped
  memory goes on representing it: both return the same results and keep equal fields.
  The pool that \<^verbatim>\<open>anam_pool_create\<close> returns is represented whatever the buffer held.
\<close>

lemma slot_addrs_apart:
  assumes ok: "platform_ok pl" and a: "a \<in> slot_addrs pl" and b: "b \<in> slot_addrs pl"
    and ne: "a \<noteq> b"
  shows "unat a + unat (slot_stride pl) \<le> unat b \<or> unat b + unat (slot_stride pl) \<le> unat a"
proof -
  from a obtain i where i: "i < unat (slot_count pl)" "a = slot_addr pl i"
    by (auto simp: slot_addrs_def)
  from b obtain j where j: "j < unat (slot_count pl)" "b = slot_addr pl j"
    by (auto simp: slot_addrs_def)
  have "i \<noteq> j" using ne i(2) j(2) by auto
  then consider "Suc i \<le> j" | "Suc j \<le> i" by linarith
  then show ?thesis
  proof cases
    case 1
    then have "Suc i * unat (slot_stride pl) \<le> j * unat (slot_stride pl)"
      by (rule mult_le_mono1)
    then show ?thesis
      by (simp add: i(2) j(2) unat_slot_addr [OF ok i(1)] unat_slot_addr [OF ok j(1)])
  next
    case 2
    then have "Suc j * unat (slot_stride pl) \<le> i * unat (slot_stride pl)"
      by (rule mult_le_mono1)
    then show ?thesis
      by (simp add: i(2) j(2) unat_slot_addr [OF ok i(1)] unat_slot_addr [OF ok j(1)])
  qed
qed

lemma slot_addrs_top:
  assumes ok: "platform_ok pl" and a: "a \<in> slot_addrs pl"
  shows "unat a + unat (slot_stride pl) \<le> 2 ^ 48" "8 \<le> unat a"
proof -
  from a obtain i where i: "i < unat (slot_count pl)" "a = slot_addr pl i"
    by (auto simp: slot_addrs_def)
  have le: "unat (slots_base pl) + unat (slot_count pl) * unat (slot_stride pl) \<le> 2 ^ 48"
    using ok by (simp add: platform_ok_def)
  have "Suc i * unat (slot_stride pl) \<le> unat (slot_count pl) * unat (slot_stride pl)"
    using i(1) by (intro mult_le_mono1) simp
  with le show "unat a + unat (slot_stride pl) \<le> 2 ^ 48"
    by (simp add: i(2) unat_slot_addr [OF ok i(1)])
  have "unat a mod 8 = 0" "0 < unat a"
    using slot_addr_bounds [OF ok i(1)] by (simp_all add: i(2))
  then show "8 \<le> unat a" by presburger
qed

lemma headers_apart:
  assumes ok: "platform_ok pl" and fit: "slots_fit pl"
    and a: "a \<in> slot_addrs pl" and b: "b \<in> slot_addrs pl"
  shows "get_header a + 8 \<noteq> get_header b"
    and "a \<noteq> b \<Longrightarrow> get_header a \<noteq> get_header b"
    and "a \<noteq> b \<Longrightarrow> get_header a + 8 \<noteq> get_header b + 8"
proof -
  show "a \<noteq> b \<Longrightarrow> get_header a \<noteq> get_header b"
    by (simp add: get_header_def)
  show "a \<noteq> b \<Longrightarrow> get_header a + 8 \<noteq> get_header b + 8"
    by (simp add: get_header_def)
  have s: "16 \<le> unat (slot_stride pl)" using fit by (simp add: slots_fit_def)
  show "get_header a + 8 \<noteq> get_header b"
  proof
    assume "get_header a + 8 = get_header b"
    then have e: "b = a + 8" by (simp add: get_header_def sizeof_SlotHeader_def algebra_simps)
    have "unat a + 8 < 2 ^ 64"
      using slot_addrs_top(1) [OF ok a] s by simp
    then have u: "unat b = unat a + 8"
      unfolding e by (simp add: unat_word_ariths)
    then have "a \<noteq> b" by auto
    from slot_addrs_apart [OF ok a b this] u s show False by linarith
  qed
qed

lemma memset_keeps_headers:
  assumes ok: "platform_ok pl" and fit: "slots_fit pl"
    and a: "a \<in> slot_addrs pl" and b: "b \<in> slot_addrs pl"
  shows "memset_zero m a (slot_size pl) (get_header b) = m (get_header b)"
    and "memset_zero m a (slot_size pl) (get_header b + 8) = m (get_header b + 8)"
proof -
  let ?s = "unat (slot_stride pl)" and ?n = "unat (slot_size pl)"
  have s: "?n + 16 \<le> ?s" using fit by (simp add: slots_fit_def)
  note ta = slot_addrs_top [OF ok a] and tb = slot_addrs_top [OF ok b]
  have p: "(2::nat) ^ 48 = 281474976710656" "(2::nat) ^ 64 = 18446744073709551616" by simp_all
  have d: "a = b \<or> unat a + ?s \<le> unat b \<or> unat b + ?s \<le> unat a"
    using slot_addrs_apart [OF ok a b] by blast
  have k: "?n \<le> unat (b - k - a)" if "k = 16 \<or> k = 8" for k :: "64 word"
  proof -
    have uk: "unat k = 16 \<or> unat k = 8" using that by auto
    have "unat (b - k - a) = (if unat a \<le> unat (b - k) then unat (b - k) - unat a
        else unat (b - k) + 2 ^ 64 - unat a)"
      by (simp add: unat_sub_if')
    moreover have "unat (b - k) = (if unat k \<le> unat b then unat b - unat k
        else unat b + 2 ^ 64 - unat k)"
      by (simp add: unat_sub_if')
    ultimately show ?thesis
      using d s ta tb uk unfolding p by (auto split: if_splits)
  qed
  have "\<not> (b - 16 - a < slot_size pl)"
    using k [of 16] by (simp add: word_less_nat_alt)
  then show "memset_zero m a (slot_size pl) (get_header b) = m (get_header b)"
    by (simp add: memset_zero_def get_header_def sizeof_SlotHeader_def Let_def)
  have "\<not> (b - 8 - a < slot_size pl)"
    using k [of 8] by (simp add: word_less_nat_alt)
  moreover have "b - 16 + 8 = b - 8" by simp
  ultimately show "memset_zero m a (slot_size pl) (get_header b + 8) = m (get_header b + 8)"
    by (simp add: memset_zero_def get_header_def sizeof_SlotHeader_def Let_def)
qed

lemma ucast_store_generation:
  "(ucast ((w AND NOT (mask 16)) OR ucast (g :: 16 word) :: 64 word) :: 16 word) = g"
  by (rule bit_word_eqI) (auto simp: bit_simps)

lemma represents_layout:
  assumes "represents pl rp"
  shows "in_pool_raw rp a = in_pool pl a"
  using assms by (simp add: represents_def same_fields_def in_pool_raw_def in_pool_def)

lemma slot_addrs_layout:
  assumes "slots_base q = slots_base pl" "slot_stride q = slot_stride pl"
    "slot_count q = slot_count pl"
  shows "slot_addrs q = slot_addrs pl"
  using assms by (simp add: slot_addrs_def slot_addr_def slot_from_index_def)

lemma anam_alloc_represents:
  fixes pl :: "'p::zero AnamPool"
  assumes r: "represents pl rp" and ok: "platform_ok pl" and fit: "slots_fit pl"
    and l: "links_on_slots pl"
  shows "fst (anam_alloc_raw rp) = fst (anam_alloc pl)"
    and "represents (snd (anam_alloc pl)) (snd (anam_alloc_raw rp))"
proof -
  have sf: "same_fields pl rp" and sh: "\<And>b. b \<in> slot_addrs pl \<Longrightarrow> same_header pl rp b"
    using r by (simp_all add: represents_def)
  have fh: "raw_free_head rp = free_head pl" using sf by (simp add: same_fields_def)
  have "fst (anam_alloc_raw rp) = fst (anam_alloc pl)
      \<and> represents (snd (anam_alloc pl)) (snd (anam_alloc_raw rp))"
  proof (cases "free_head pl = ANAM_NULL")
    case True
    then show ?thesis
      using r by (simp add: anam_alloc_def anam_alloc_raw_def anam_is_null_def fh)
  next
    case False
    let ?a = "decode_addr (free_head pl)"
    have a: "?a \<in> slot_addrs pl"
      using l False by (simp add: links_on_slots_def slot_link_def)
    note ha = sh [OF a, unfolded same_header_def load_next_def load_generation_def]
    have e: "fst (anam_alloc_raw rp) = fst (anam_alloc pl)"
      using False ha
      by (simp add: anam_alloc_def anam_alloc_raw_def anam_is_null_def fh Let_def
          load_next_def load_generation_def)
    have sa: "slot_addrs (snd (anam_alloc pl)) = slot_addrs pl"
      by (rule slot_addrs_layout [OF anam_alloc_layout])
    have f': "same_fields (snd (anam_alloc pl)) (snd (anam_alloc_raw rp))"
      using False sf ha
      by (simp add: anam_alloc_def anam_alloc_raw_def anam_is_null_def same_fields_def Let_def
          load_next_def load_generation_def)
    have h': "same_header (snd (anam_alloc pl)) (snd (anam_alloc_raw rp)) b"
      if b: "b \<in> slot_addrs pl" for b
    proof -
      note hb = sh [OF b, unfolded same_header_def load_next_def load_generation_def]
      note m = memset_keeps_headers [OF ok fit a b] memset_keeps_headers [OF ok fit a a]
      note ap = headers_apart [OF ok fit a b] headers_apart [OF ok fit b a]
      have z: "raw_zero_on_alloc rp = zero_on_alloc pl" "raw_slot_size rp = slot_size pl"
        using sf by (simp_all add: same_fields_def)
      show ?thesis
        using False hb ap
        by (cases "?a = b")
          (auto simp: anam_alloc_def anam_alloc_raw_def anam_is_null_def same_header_def Let_def
            load_next_def load_generation_def store_next_def fh z m ANAM_NULL_def)
    qed
    have "represents (snd (anam_alloc pl)) (snd (anam_alloc_raw rp))"
      unfolding represents_def sa using f' h' by blast
    with e show ?thesis by blast
  qed
  then show "fst (anam_alloc_raw rp) = fst (anam_alloc pl)"
    and "represents (snd (anam_alloc pl)) (snd (anam_alloc_raw rp))"
    by blast+
qed

lemma plain_accepted_slot:
  assumes ok: "platform_ok pl" and p: "plain_handle pl h" and n: "\<not> anam_is_null h"
    and s: "anam_state h = ANAM_STATE_LIVE" and i: "in_pool pl (decode_addr h)"
  shows "decode_addr h \<in> slot_addrs pl"
proof -
  have "on_slot_boundary pl (decode_addr h)"
    using p n s i by (simp add: plain_handle_def)
  with ok i show ?thesis
    by (intro on_boundary_slot_addr) (simp_all add: in_pool_iff)
qed

lemma represents_anamnesis_count:
  "represents pl rp \<Longrightarrow>
     represents (pl\<lparr>anamnesis_count := anamnesis_count pl + 1\<rparr>)
       (rp\<lparr>raw_anamnesis_count := raw_anamnesis_count rp + 1\<rparr>)"
  by (auto simp: represents_def same_fields_def same_header_def slot_addrs_def slot_addr_def
      slot_from_index_def)

lemma anam_release_represents:
  fixes pl :: "'p::zero AnamPool"
  assumes r: "represents pl rp" and ok: "platform_ok pl" and fit: "slots_fit pl"
    and p: "plain_handle pl h"
  shows "fst (anam_release_raw rp h) = fst (anam_release pl h)"
    and "represents (snd (anam_release pl h)) (snd (anam_release_raw rp h))"
proof -
  have sf: "same_fields pl rp" and sh: "\<And>b. b \<in> slot_addrs pl \<Longrightarrow> same_header pl rp b"
    using r by (simp_all add: represents_def)
  note ip = represents_layout [OF r]
  note rc = represents_anamnesis_count [OF r]
  have "fst (anam_release_raw rp h) = fst (anam_release pl h)
      \<and> represents (snd (anam_release pl h)) (snd (anam_release_raw rp h))"
  proof (cases "\<not> anam_is_null h \<and> anam_state h = ANAM_STATE_LIVE \<and> in_pool pl (decode_addr h)")
    case False
    then show ?thesis
      using r rc by (auto simp: anam_release_def anam_release_raw_def ip Let_def)
  next
    case True
    let ?a = "decode_addr h"
    have a: "?a \<in> slot_addrs pl"
      using ok p True by (intro plain_accepted_slot) simp_all
    note ha = sh [OF a, unfolded same_header_def load_next_def load_generation_def]
    show ?thesis
    proof (cases "decode_gen h = hdr_generation pl (get_header ?a)")
      case False
      then show ?thesis
        using True ha rc
        by (simp add: anam_release_def anam_release_raw_def ip Let_def load_generation_def)
    next
      case g: True
      have e: "fst (anam_release_raw rp h) = fst (anam_release pl h)"
        using True g ha
        by (simp add: anam_release_def anam_release_raw_def ip Let_def load_generation_def)
      have sa: "slot_addrs (snd (anam_release pl h)) = slot_addrs pl"
        by (rule slot_addrs_layout [OF anam_release_layout])
      have f': "same_fields (snd (anam_release pl h)) (snd (anam_release_raw rp h))"
        using True g sf ha
        by (simp add: anam_release_def anam_release_raw_def ip same_fields_def Let_def
            load_generation_def)
      have h': "same_header (snd (anam_release pl h)) (snd (anam_release_raw rp h)) b"
        if b: "b \<in> slot_addrs pl" for b
      proof -
        note hb = sh [OF b, unfolded same_header_def load_next_def load_generation_def]
        note m = memset_keeps_headers [OF ok fit a b] memset_keeps_headers [OF ok fit a a]
        note ap = headers_apart [OF ok fit a b] headers_apart [OF ok fit b a]
          headers_apart(1) [OF ok fit a a]
        have z: "raw_zero_on_release rp = zero_on_release pl" "raw_slot_size rp = slot_size pl"
          "raw_free_head rp = free_head pl"
          using sf by (simp_all add: same_fields_def)
        show ?thesis
          using True g hb ha ap
          by (cases "?a = b")
            (auto simp: anam_release_def anam_release_raw_def ip same_header_def Let_def
              load_next_def load_generation_def store_next_def store_generation_def z m
              ucast_store_generation)
      qed
      have "represents (snd (anam_release pl h)) (snd (anam_release_raw rp h))"
        unfolding represents_def sa using f' h' by blast
      with e show ?thesis by blast
    qed
  qed
  then show "fst (anam_release_raw rp h) = fst (anam_release pl h)"
    and "represents (snd (anam_release pl h)) (snd (anam_release_raw rp h))"
    by blast+
qed

lemma anam_get_represents:
  assumes r: "represents pl rp" and ok: "platform_ok pl" and p: "plain_handle pl h"
  shows "fst (anam_get_raw rp h) = fst (anam_get pl h)"
    and "represents (snd (anam_get pl h)) (snd (anam_get_raw rp h))"
proof -
  have sh: "\<And>b. b \<in> slot_addrs pl \<Longrightarrow> same_header pl rp b"
    using r by (simp_all add: represents_def)
  note ip = represents_layout [OF r]
  note rc = represents_anamnesis_count [OF r]
  have "fst (anam_get_raw rp h) = fst (anam_get pl h)
      \<and> represents (snd (anam_get pl h)) (snd (anam_get_raw rp h))"
  proof (cases "\<not> anam_is_null h \<and> anam_state h = ANAM_STATE_LIVE \<and> in_pool pl (decode_addr h)")
    case False
    then show ?thesis
      using r rc by (auto simp: anam_get_def anam_get_raw_def ip Let_def)
  next
    case True
    have a: "decode_addr h \<in> slot_addrs pl"
      using ok p True by (intro plain_accepted_slot) simp_all
    note ha = sh [OF a, unfolded same_header_def load_next_def load_generation_def]
    show ?thesis
      using True ha r rc
      by (simp add: anam_get_def anam_get_raw_def ip Let_def load_generation_def)
  qed
  then show "fst (anam_get_raw rp h) = fst (anam_get pl h)"
    and "represents (snd (anam_get pl h)) (snd (anam_get_raw rp h))"
    by blast+
qed

lemma pool_step_slot_size: "slot_size (fst (pool_step s x)) = slot_size (fst s)"
proof (cases s)
  case (Pair pl live)
  show ?thesis
    by (cases x) (simp_all add: Pair split_beta anam_alloc_def anam_release_def anam_get_def Let_def)
qed

lemma slots_fit_step: "slots_fit (fst (pool_step s x)) = slots_fit (fst s)"
  by (simp add: slots_fit_def pool_step_slot_size pool_step_layout)

lemma pool_step_represents:
  fixes s :: "'p::zero AnamPool \<times> AnamHandle set"
  assumes "represents (fst s) rp" "platform_ok (fst s)" "slots_fit (fst s)"
    "links_on_slots (fst s)" "plain_op (fst s) x"
  shows "represents (fst (pool_step s x)) (raw_step rp x)"
proof (cases s)
  case (Pair pl live)
  show ?thesis
  proof (cases x)
    case Alloc
    then show ?thesis
      using assms by (simp add: Pair split_beta anam_alloc_represents)
  next
    case (Release h)
    then show ?thesis
      using assms by (simp add: Pair split_beta anam_release_represents)
  next
    case (Get h)
    then show ?thesis
      using assms by (simp add: Pair anam_get_represents)
  qed
qed

lemma pool_run_represents:
  fixes s :: "'p::zero AnamPool \<times> AnamHandle set"
  assumes "represents (fst s) rp" "platform_ok (fst s)" "slots_fit (fst s)"
    "links_on_slots (fst s)" "list_all (plain_op (fst s)) ops"
  shows "represents (fst (pool_run s ops)) (raw_run rp ops)"
  using assms
proof (induction ops arbitrary: s rp)
  case Nil
  then show ?case by (simp add: pool_run_def raw_run_def)
next
  case (Cons x ops)
  have r: "represents (fst (pool_step s x)) (raw_step rp x)"
    using Cons.prems by (intro pool_step_represents) simp_all
  have ok: "platform_ok (fst (pool_step s x))"
    using Cons.prems(2) by (simp add: platform_ok_layout [OF pool_step_layout])
  have fit: "slots_fit (fst (pool_step s x))"
    using Cons.prems(3) by (simp add: slots_fit_step)
  have l: "links_on_slots (fst (pool_step s x))"
    using Cons.prems by (intro links_step) simp_all
  have p: "list_all (plain_op (fst (pool_step s x))) ops"
    using Cons.prems(5) by (simp add: plain_op_layout [OF pool_step_layout])
  show ?case
    using Cons.IH [OF r ok fit l p] by (simp add: pool_run_def raw_run_def)
qed

lemma accepted_releases_represents:
  fixes s :: "'p::zero AnamPool \<times> AnamHandle set"
  assumes "represents (fst s) rp" "platform_ok (fst s)" "slots_fit (fst s)"
    "links_on_slots (fst s)" "list_all (plain_op (fst s)) ops"
  shows "accepted_releases_raw a rp ops = accepted_releases a s ops"
  using assms
proof (induction ops arbitrary: s rp)
  case Nil
  then show ?case by simp
next
  case (Cons x ops)
  have r: "represents (fst (pool_step s x)) (raw_step rp x)"
    using Cons.prems by (intro pool_step_represents) simp_all
  have ok: "platform_ok (fst (pool_step s x))"
    using Cons.prems(2) by (simp add: platform_ok_layout [OF pool_step_layout])
  have fit: "slots_fit (fst (pool_step s x))"
    using Cons.prems(3) by (simp add: slots_fit_step)
  have l: "links_on_slots (fst (pool_step s x))"
    using Cons.prems by (intro links_step) simp_all
  have p: "list_all (plain_op (fst (pool_step s x))) ops"
    using Cons.prems(5) by (simp add: plain_op_layout [OF pool_step_layout])
  note ih = Cons.IH [OF r ok fit l p]
  show ?case
  proof (cases x)
    case Alloc
    then show ?thesis using ih by simp
  next
    case (Release h)
    have "fst (anam_release_raw rp h) = fst (anam_release (fst s) h)"
      using Cons.prems Release by (intro anam_release_represents) simp_all
    then show ?thesis using ih Release by simp
  next
    case (Get h)
    then show ?thesis using ih by simp
  qed
qed

lemma free_chain_links:
  assumes ok: "platform_ok pl" and c: "free_chain pl h fs" and s: "set fs \<subseteq> slot_addrs pl"
  shows "slot_link pl h \<and> (\<forall>a\<in>set fs. slot_link pl (hdr_next pl (get_header a)))"
  using c s
proof (induction fs arbitrary: h)
  case Nil
  then show ?case by (simp add: slot_link_def)
next
  case (Cons a fs)
  have a: "a \<in> slot_addrs pl" using Cons.prems(2) by simp
  have "decode_addr h = a"
    using Cons.prems(1) by (simp add: decode_addr_encode slot_addrs_props(1) [OF ok a])
  then have "slot_link pl h" using a by (simp add: slot_link_def)
  moreover have "slot_link pl (hdr_next pl (get_header a))
      \<and> (\<forall>b\<in>set fs. slot_link pl (hdr_next pl (get_header b)))"
    using Cons.prems by (intro Cons.IH) simp_all
  ultimately show ?case by simp
qed

lemma anam_pool_create_links:
  assumes c: "anam_pool_create (Some cfg) calloc_ok mem raw = Some pl" and ok: "platform_ok pl"
  shows "links_on_slots pl"
proof -
  let ?fs = "map (slot_addr pl) [0..<unat (slot_count pl)]"
  have inv: "pool_inv pl ?fs {}" by (rule anam_pool_create_inv(1) [OF c ok])
  then have ch: "free_chain pl (free_head pl) ?fs" by (simp add: pool_inv_def)
  have s: "set ?fs = slot_addrs pl"
    by (simp add: slot_addrs_def atLeast0LessThan)
  have "set ?fs \<subseteq> slot_addrs pl" using s by simp
  from free_chain_links [OF ok ch this] show ?thesis
    unfolding links_on_slots_def s by blast
qed

lemma create_loop_represents:
  fixes pl :: "'p AnamPool"
  assumes "same_fields pl rp" "platform_ok pl" "slots_fit pl" "n \<le> unat (slot_count pl)"
    and "\<And>i. n \<le> i \<Longrightarrow> i < unat (slot_count pl) \<Longrightarrow> same_header pl rp (slot_addr pl i)"
  shows "represents (anam_pool_create_loop n pl) (anam_pool_create_loop_raw n rp)"
  using assms
proof (induction n arbitrary: pl rp)
  case 0
  then show ?case by (auto simp: represents_def slot_addrs_def)
next
  case (Suc n)
  let ?a = "slot_addr pl n"
  let ?pl1 = "pl\<lparr>hdr_generation := (hdr_generation pl)(get_header ?a := 0),
                  hdr_next := (hdr_next pl)(get_header ?a := free_head pl),
                  free_head := encode_handle 0 ?a ANAM_STATE_FREE\<rparr>"
  let ?rp1 = "rp\<lparr>cells := store_next (store_generation (cells rp) (get_header ?a) 0)
                           (get_header ?a) (raw_free_head rp),
                  raw_free_head := encode_handle 0 ?a ANAM_STATE_FREE\<rparr>"
  have sf: "same_fields pl rp" and ok: "platform_ok pl" and fit: "slots_fit pl"
    and n: "n < unat (slot_count pl)"
    using Suc.prems by simp_all
  have a: "?a \<in> slot_addrs pl" using n by (simp add: slot_addrs_def)
  have ra: "raw_slots_base rp + word_of_nat n * raw_slot_stride rp = ?a"
    "raw_free_head rp = free_head pl"
    using sf by (simp_all add: same_fields_def slot_addr_def slot_from_index_def)
  have l: "anam_pool_create_loop (Suc n) pl = anam_pool_create_loop n ?pl1"
    by (simp add: Let_def slot_addr_def)
  have lr: "anam_pool_create_loop_raw (Suc n) rp = anam_pool_create_loop_raw n ?rp1"
    by (simp add: Let_def ra)
  have sf1: "same_fields ?pl1 ?rp1" using sf by (simp add: same_fields_def)
  have ok1: "platform_ok ?pl1" using ok by (simp add: platform_ok_def)
  have fit1: "slots_fit ?pl1" using fit by (simp add: slots_fit_def)
  have n1: "n \<le> unat (slot_count ?pl1)" using n by simp
  have sa1: "slot_addr ?pl1 = slot_addr pl"
    by (simp add: fun_eq_iff slot_addr_def slot_from_index_def)
  have h1: "same_header ?pl1 ?rp1 (slot_addr ?pl1 i)"
    if i: "n \<le> i" "i < unat (slot_count ?pl1)" for i
  proof (cases "i = n")
    case True
    have "(ucast (w AND NOT (mask 16) :: 64 word) :: 16 word) = 0" for w
      using ucast_store_generation [of w 0] by simp
    then show ?thesis
      using headers_apart(1) [OF ok fit a a]
      by (simp add: True sa1 same_header_def load_next_def load_generation_def store_next_def
          store_generation_def ra)
  next
    case False
    then have i': "Suc n \<le> i" "i < unat (slot_count pl)" using i by simp_all
    let ?b = "slot_addr pl i"
    have b: "?b \<in> slot_addrs pl" using i'(2) by (simp add: slot_addrs_def)
    have ne: "?a \<noteq> ?b"
      using slot_addr_inj [OF ok n i'(2)] False by auto
    note hb = Suc.prems(5) [OF i']
    note ap = headers_apart [OF ok fit a b] headers_apart [OF ok fit b a]
    show ?thesis
      using hb ap ne
      by (auto simp: sa1 same_header_def load_next_def load_generation_def store_next_def
          store_generation_def)
  qed
  show ?case
    unfolding l lr using sf1 ok1 fit1 n1 h1 by (rule Suc.IH)
qed

lemma anam_pool_create_represents:
  fixes pl :: "'p AnamPool"
  assumes c: "anam_pool_create config calloc_ok mem raw = Some pl"
    and ok: "platform_ok pl" and fit: "slots_fit pl"
  shows "\<exists>rp. anam_pool_create_raw config calloc_ok mem buffer = Some rp \<and> represents pl rp"
proof -
  define cfg0 where "cfg0 = (case config of None \<Rightarrow> ANAM_POOL_DEFAULT | Some c \<Rightarrow> c)"
  define cfg where "cfg = (if cfg_alignment cfg0 = 0 then cfg0\<lparr>cfg_alignment := 8\<rparr> else cfg0)"
  define stride where "stride = align_up (align_up sizeof_SlotHeader (cfg_alignment cfg)
      + align_up (cfg_slot_size cfg) (cfg_alignment cfg)) 8"
  define pl0 :: "'p AnamPool" where "pl0 =
    \<lparr>hdr_next = hdr_next raw, hdr_generation = hdr_generation raw, payload = payload raw,
     slot_size = cfg_slot_size cfg, slot_stride = stride,
     slot_stride_mask = (if stride AND (stride - 1) = 0 then stride - 1 else 0),
     slot_count = cfg_slot_count cfg, alignment = cfg_alignment cfg,
     zero_on_alloc = cfg_zero_on_alloc cfg, zero_on_release = cfg_zero_on_release cfg,
     memory = mem, slots_base = align_up (mem + sizeof_SlotHeader) (cfg_alignment cfg),
     free_head = ANAM_NULL, slots_free = cfg_slot_count cfg,
     alloc_count = 0, release_count = 0, anamnesis_count = 0, generation_max = 0\<rparr>"
  define rp0 where "rp0 =
    \<lparr>raw_slot_size = cfg_slot_size cfg, raw_slot_stride = stride,
     raw_slot_stride_mask = (if stride AND (stride - 1) = 0 then stride - 1 else 0),
     raw_slot_count = cfg_slot_count cfg, raw_alignment = cfg_alignment cfg,
     raw_zero_on_alloc = cfg_zero_on_alloc cfg, raw_zero_on_release = cfg_zero_on_release cfg,
     raw_memory = mem, raw_slots_base = align_up (mem + sizeof_SlotHeader) (cfg_alignment cfg),
     raw_free_head = ANAM_NULL, raw_slots_free = cfg_slot_count cfg,
     raw_alloc_count = 0, raw_release_count = 0, raw_anamnesis_count = 0,
     raw_generation_max = 0, cells = buffer\<rparr>"
  have g: "\<not> (cfg_slot_size cfg0 = 0 \<or> cfg_slot_count cfg0 = 0)"
    "\<not> cfg_alignment cfg AND (cfg_alignment cfg - 1) \<noteq> 0" "\<not> cfg_alignment cfg < 8"
    "calloc_ok" "mem \<noteq> 0"
    using c unfolding anam_pool_create_def cfg0_def [symmetric] Let_def cfg_def [symmetric]
    by (auto split: if_splits)
  have sz: "cfg_slot_size cfg = cfg_slot_size cfg0" "cfg_slot_count cfg = cfg_slot_count cfg0"
    by (simp_all add: cfg_def)
  have p: "pl = anam_pool_create_loop (unat (cfg_slot_count cfg)) pl0"
    using c g unfolding anam_pool_create_def cfg0_def [symmetric] Let_def cfg_def [symmetric]
      stride_def [symmetric] pl0_def [symmetric]
    by (simp add: sz)
  have r: "anam_pool_create_raw config calloc_ok mem buffer
      = Some (anam_pool_create_loop_raw (unat (cfg_slot_count cfg)) rp0)"
    using g unfolding anam_pool_create_raw_def cfg0_def [symmetric] Let_def cfg_def [symmetric]
      stride_def [symmetric] rp0_def [symmetric]
    by (simp add: sz)
  have sf: "same_fields pl0 rp0" by (simp add: same_fields_def pl0_def rp0_def)
  have lay: "slots_base pl = slots_base pl0" "slot_stride pl = slot_stride pl0"
    "slot_count pl = slot_count pl0" "slot_size pl = slot_size pl0"
    unfolding p by (simp_all add: create_loop_fields)
  have ok0: "platform_ok pl0" using ok by (simp add: platform_ok_def lay)
  have fit0: "slots_fit pl0" using fit by (simp add: slots_fit_def lay)
  have n: "unat (cfg_slot_count cfg) \<le> unat (slot_count pl0)" by (simp add: pl0_def)
  have "represents (anam_pool_create_loop (unat (cfg_slot_count cfg)) pl0)
      (anam_pool_create_loop_raw (unat (cfg_slot_count cfg)) rp0)"
    using sf ok0 fit0 n by (rule create_loop_represents) (simp add: pl0_def)
  with r p show ?thesis by simp
qed

lemma disciplined_plain:
  fixes s :: "'p::zero AnamPool \<times> AnamHandle set"
  shows "disciplined s ops \<Longrightarrow> list_all (plain_op (fst s)) ops"
proof (induction ops arbitrary: s)
  case Nil
  then show ?case by simp
next
  case (Cons x ops)
  have d: "disciplined (pool_step s x) ops" and p: "plain_op (fst s) x"
    using Cons.prems by (cases x; simp)+
  have "list_all (plain_op (fst (pool_step s x))) ops"
    using d by (rule Cons.IH)
  then show ?case
    using p by (simp add: plain_op_layout [OF pool_step_layout])
qed

lemma pool_run_slot_size: "slot_size (fst (pool_run s ops)) = slot_size (fst s)"
  by (induction ops arbitrary: s) (simp_all add: pool_run_def pool_step_slot_size)

lemma created_run_represents:
  fixes pl0 :: "'p::zero AnamPool"
  assumes c: "anam_pool_create config calloc_ok mem raw = Some pl0"
    and ok: "platform_ok pl0" and fit: "slots_fit pl0"
    and p: "list_all (plain_op pl0) ops"
  shows "\<exists>rp0. anam_pool_create_raw config calloc_ok mem buffer = Some rp0
           \<and> represents (fst (pool_run (pl0, {}) ops)) (raw_run rp0 ops)"
proof -
  obtain rp0 where r: "anam_pool_create_raw config calloc_ok mem buffer = Some rp0"
    "represents pl0 rp0"
    using anam_pool_create_represents [OF c ok fit] by blast
  obtain cfg where "anam_pool_create (Some cfg) calloc_ok mem raw = Some pl0"
    using c by (cases config) (auto simp: anam_pool_create_None)
  then have l: "links_on_slots pl0" using ok by (rule anam_pool_create_links)
  have "represents (fst (pool_run (pl0, {}) ops)) (raw_run rp0 ops)"
    using r(2) ok fit l p by (intro pool_run_represents) simp_all
  with r(1) show ?thesis by blast
qed

lemma release_again_rejected_raw:
  fixes pl :: "'p::zero AnamPool"
  assumes r: "represents pl rp" and ok: "platform_ok pl" and fit: "slots_fit pl"
    and l: "links_on_slots pl" and p: "list_all (plain_op pl) (Release h # ops)"
    and a: "fst (anam_release_raw rp h)"
    and k: "Suc (accepted_releases_raw (decode_addr h) (snd (anam_release_raw rp h)) ops)
              mod 65536 \<noteq> 0"
  shows "anam_release_raw (raw_run (snd (anam_release_raw rp h)) ops) h =
           (False, (raw_run (snd (anam_release_raw rp h)) ops)
              \<lparr>raw_anamnesis_count :=
                 raw_anamnesis_count (raw_run (snd (anam_release_raw rp h)) ops) + 1\<rparr>)"
proof -
  let ?s = "(snd (anam_release pl h), {})"
  let ?q = "fst (pool_run ?s ops)"
  let ?rp1 = "snd (anam_release_raw rp h)"
  let ?rq = "raw_run ?rp1 ops"
  let ?a = "decode_addr h"
  have ph: "plain_handle pl h" and po: "list_all (plain_op pl) ops" using p by simp_all
  note rel = anam_release_represents [OF r ok fit ph]
  have a': "fst (anam_release pl h)" using a rel(1) by simp
  have au: "authenticates pl h" using a' by (rule anam_release_accepted_auth)
  then have n: "h \<noteq> ANAM_NULL" and g: "hdr_generation pl (get_header ?a) = decode_gen h"
    by (simp_all add: authenticates_def)
  have r1: "represents (fst ?s) ?rp1" using rel(2) by simp
  have ok1: "platform_ok (fst ?s)"
    using ok by (simp add: platform_ok_layout [OF anam_release_layout])
  have fit1: "slots_fit (fst ?s)"
    using slots_fit_step [of "(pl, {})" "Release h"] fit by (simp add: split_beta)
  have l1: "links_on_slots (fst ?s)"
    using links_step [of "(pl, {})" "Release h"] ok l ph by (simp add: split_beta)
  have p1: "list_all (plain_op (fst ?s)) ops"
    using po by (simp add: plain_op_layout [OF anam_release_layout])
  have rq: "represents ?q ?rq" using r1 ok1 fit1 l1 p1 by (rule pool_run_represents)
  have ke: "accepted_releases_raw ?a ?rp1 ops = accepted_releases ?a ?s ops"
    using r1 ok1 fit1 l1 p1 by (rule accepted_releases_represents)
  have "hdr_generation ?q (get_header ?a)
      = decode_gen h + 1 + of_nat (accepted_releases ?a ?s ops)"
    by (simp add: pool_run_generation anam_release_fields(2) [OF au] g)
  also have "\<dots> = decode_gen h + of_nat (Suc (accepted_releases ?a ?s ops))" by simp
  finally have "hdr_generation ?q (get_header ?a) \<noteq> decode_gen h"
    using k by (simp add: ke of_nat_16_zero_iff del: of_nat_Suc)
  then have "\<not> authenticates ?q h" by (simp add: authenticates_def)
  with n have t: "anam_release ?q h = (False, ?q\<lparr>anamnesis_count := anamnesis_count ?q + 1\<rparr>)"
    by (rule anam_release_not_auth)
  have okq: "platform_ok ?q"
    using ok1 by (simp add: platform_ok_layout [OF pool_run_layout])
  have fitq: "slots_fit ?q"
    using fit1 by (simp add: slots_fit_def pool_run_layout pool_run_slot_size)
  have phq: "plain_handle ?q h"
    using ph plain_op_layout [OF pool_run_layout, of ?s ops]
      plain_op_layout [OF anam_release_layout, of pl h]
    by (metis plain_op.simps(2) fst_conv)
  from anam_release_represents(1) [OF rq okq fitq phq] t
  have f: "\<not> fst (anam_release_raw ?rq h)" by simp
  then show ?thesis
    using n by (auto simp: anam_release_raw_def anam_is_null_def Let_def split: if_splits)
qed

text \<open>
  The counters are fields of the pool structure and not bytes of the buffer: on untyped
  memory too, whatever the handles, \<open>alloc_count - release_count = slot_count - slots_free\<close>
  in every state reachable from creation.
\<close>

lemma counters_step_raw:
  assumes "raw_alloc_count rp - raw_release_count rp = raw_slot_count rp - raw_slots_free rp"
  shows "raw_alloc_count (raw_step rp x) - raw_release_count (raw_step rp x)
           = raw_slot_count (raw_step rp x) - raw_slots_free (raw_step rp x)"
proof (cases x)
  case Alloc
  then show ?thesis
    using assms by (simp add: anam_alloc_raw_def Let_def)
next
  case (Release h)
  then show ?thesis
    using assms by (simp add: anam_release_raw_def Let_def)
next
  case (Get h)
  then show ?thesis
    using assms by (simp add: anam_get_raw_def Let_def)
qed

lemma create_loop_raw_fields:
  "raw_slot_count (anam_pool_create_loop_raw n rp) = raw_slot_count rp"
  "raw_slots_free (anam_pool_create_loop_raw n rp) = raw_slots_free rp"
  "raw_alloc_count (anam_pool_create_loop_raw n rp) = raw_alloc_count rp"
  "raw_release_count (anam_pool_create_loop_raw n rp) = raw_release_count rp"
  by (induction n arbitrary: rp; simp add: Let_def)+

lemma counters_run_raw:
  assumes "anam_pool_create_raw config calloc_ok mem buffer = Some rp0"
  shows "raw_alloc_count (raw_run rp0 ops) - raw_release_count (raw_run rp0 ops)
           = raw_slot_count (raw_run rp0 ops) - raw_slots_free (raw_run rp0 ops)"
proof -
  have c: "raw_alloc_count rp0 - raw_release_count rp0 = raw_slot_count rp0 - raw_slots_free rp0"
    using assms
    by (auto simp: anam_pool_create_raw_def Let_def create_loop_raw_fields split: if_splits)
  have "raw_alloc_count rp - raw_release_count rp = raw_slot_count rp - raw_slots_free rp
    \<Longrightarrow> raw_alloc_count (raw_run rp ops) - raw_release_count (raw_run rp ops)
           = raw_slot_count (raw_run rp ops) - raw_slots_free (raw_run rp ops)" for rp
    by (induction ops arbitrary: rp) (simp_all add: raw_run_def counters_step_raw)
  from this [OF c] show ?thesis .
qed

section \<open>Generation cycling\<close>

lemma create_loop_generation:
  assumes "platform_ok pl" "n \<le> unat (slot_count pl)" "i < n"
  shows "hdr_generation (anam_pool_create_loop n pl) (get_header (slot_addr pl i)) = 0"
  using assms
proof (induction n arbitrary: pl)
  case 0
  then show ?case by simp
next
  case (Suc m)
  let ?a = "slot_addr pl m"
  let ?pl1 = "pl\<lparr>hdr_generation := (hdr_generation pl)(get_header ?a := 0),
                  hdr_next := (hdr_next pl)(get_header ?a := free_head pl),
                  free_head := encode_handle 0 ?a ANAM_STATE_FREE\<rparr>"
  have step: "anam_pool_create_loop (Suc m) pl = anam_pool_create_loop m ?pl1"
    by (simp add: Let_def slot_addr_def)
  have lay: "platform_ok ?pl1" "slot_addr ?pl1 = slot_addr pl" "slot_count ?pl1 = slot_count pl"
    using Suc.prems(1) by (simp_all add: platform_ok_def slot_addr_def slot_from_index_def fun_eq_iff)
  have keep: "hdr_generation (anam_pool_create_loop k q) (get_header b) = hdr_generation q (get_header b)"
    if "b \<notin> slot_addr q ` {..<k}" for k b and q :: "'a AnamPool"
    using that
  proof (induction k arbitrary: q)
    case 0
    then show ?case by simp
  next
    case (Suc k)
    let ?q1 = "q\<lparr>hdr_generation := (hdr_generation q)(get_header (slot_addr q k) := 0),
                  hdr_next := (hdr_next q)(get_header (slot_addr q k) := free_head q),
                  free_head := encode_handle 0 (slot_addr q k) ANAM_STATE_FREE\<rparr>"
    have s: "anam_pool_create_loop (Suc k) q = anam_pool_create_loop k ?q1"
      by (simp add: Let_def slot_addr_def)
    have l: "slot_addr ?q1 = slot_addr q"
      by (simp add: slot_addr_def slot_from_index_def fun_eq_iff)
    have "hdr_generation (anam_pool_create_loop k ?q1) (get_header b) = hdr_generation ?q1 (get_header b)"
      using Suc.prems by (intro Suc.IH) (auto simp: l)
    then show ?case
      using Suc.prems by (simp only: s) auto
  qed
  show ?case
  proof (cases "i = m")
    case True
    have "?a \<notin> slot_addr ?pl1 ` {..<m}"
    proof
      assume "?a \<in> slot_addr ?pl1 ` {..<m}"
      then obtain j where j: "j < m" "slot_addr pl m = slot_addr pl j" by (auto simp: lay)
      then have "m = j"
        using Suc.prems(1,2) by (intro slot_addr_inj [of pl]) auto
      with j(1) show False by simp
    qed
    from keep [OF this] show ?thesis
      by (simp only: step True) simp
  next
    case False
    then have "i < m" using Suc.prems(3) by simp
    then have "hdr_generation (anam_pool_create_loop m ?pl1) (get_header (slot_addr ?pl1 i)) = 0"
      using Suc.prems(2) by (intro Suc.IH [OF lay(1)]) (simp_all add: lay)
    then show ?thesis
      by (simp only: step lay)
  qed
qed

lemma anam_pool_create_generation:
  assumes c: "anam_pool_create (Some cfg) calloc_ok mem raw = Some pl" and ok: "platform_ok pl"
    and i: "i < unat (slot_count pl)"
  shows "hdr_generation pl (get_header (slot_addr pl i)) = 0"
proof -
  from c obtain pl0 where p: "pl = anam_pool_create_loop (unat (cfg_slot_count cfg)) pl0"
    "slot_count pl0 = cfg_slot_count cfg"
    by (rule anam_pool_create_Some)
  have ok0: "platform_ok pl0"
    using ok by (simp add: p(1) platform_ok_def create_loop_fields)
  have sa: "slot_addr pl = slot_addr pl0"
    by (simp add: p(1) slot_addr_def slot_from_index_def create_loop_fields fun_eq_iff)
  have sc: "slot_count pl = cfg_slot_count cfg"
    by (simp add: p create_loop_fields)
  show ?thesis
    unfolding sa unfolding p(1)
    using i by (intro create_loop_generation [OF ok0]) (simp_all add: p(2) sc)
qed

lemma of_nat_16_inj:
  "i < 65536 \<Longrightarrow> j < 65536 \<Longrightarrow> (of_nat i :: 16 word) = of_nat j \<longleftrightarrow> i = j"
proof
  assume "(of_nat i :: 16 word) = of_nat j"
  then have "unat (of_nat i :: 16 word) = unat (of_nat j :: 16 word)" by simp
  moreover assume "i < 65536" "j < 65536"
  ultimately show "i = j" by (simp add: unat_of_nat)
qed simp

lemma of_nat_16_less:
  "i < j \<Longrightarrow> j < 65536 \<Longrightarrow> (of_nat i :: 16 word) < of_nat j"
  by (simp add: word_less_nat_alt unat_of_nat)

lemma anam_get_not_auth: "\<not> authenticates pl h \<Longrightarrow> fst (anam_get pl h) = 0"
  by (auto simp: anam_get_def authenticates_def anam_is_null_def in_pool_iff Let_def)

lemma cycle_round:
  fixes pl :: "'p::zero AnamPool"
  assumes ok: "platform_ok pl" and a: "a \<in> slot_addrs pl"
    and fh: "free_head pl = encode_handle (of_nat k) a ANAM_STATE_FREE"
    and g: "hdr_generation pl (get_header a) = of_nat k"
    and m: "generation_max pl = of_nat (k - 1)"
    and k: "k < 65536"
  defines "h \<equiv> encode_handle (of_nat k) a ANAM_STATE_LIVE"
  defines "pl2 \<equiv> snd (anam_release (snd (anam_alloc pl)) h)"
  shows "fst (anam_alloc pl) = h"
    and "platform_ok pl2" and "slot_addrs pl2 = slot_addrs pl"
    and "free_head pl2 = encode_handle (of_nat (Suc k)) a ANAM_STATE_FREE"
    and "hdr_generation pl2 (get_header a) = of_nat (Suc k)"
    and "generation_max pl2 = of_nat (Suc k - 1)"
proof -
  let ?pl1 = "snd (anam_alloc pl)"
  note ap = slot_addrs_props [OF ok a]
  note f = anam_alloc_fields [OF fh ap(1) ap(2) g [symmetric]]
  show "fst (anam_alloc pl) = h" by (simp add: f(1) h_def)
  have d: "decode_addr h = a" by (simp add: h_def decode_addr_encode ap(1))
  have "in_slot_region ?pl1 a"
    using ap(3) by (simp add: in_slot_region_def f)
  then have au: "authenticates ?pl1 h"
    by (simp add: authenticates_def d f g) (simp add: h_def encode_live_props decode_gen_encode)
  note r = anam_release_fields [OF au, unfolded d]
  show "platform_ok pl2" "slot_addrs pl2 = slot_addrs pl"
    using ok by (simp_all add: pl2_def platform_ok_def slot_addrs_def slot_addr_def
        slot_from_index_def r f)
  show "free_head pl2 = encode_handle (of_nat (Suc k)) a ANAM_STATE_FREE"
    by (simp add: pl2_def r f g add.commute)
  show "hdr_generation pl2 (get_header a) = of_nat (Suc k)"
    by (simp add: pl2_def r f g add.commute)
  have "generation_max ?pl1 = of_nat k"
  proof (cases k)
    case 0
    then show ?thesis using m by (simp add: f)
  next
    case (Suc j)
    then have "(of_nat (k - 1) :: 16 word) < of_nat k"
      using k by (intro of_nat_16_less) simp_all
    then show ?thesis by (simp add: f m)
  qed
  then show "generation_max pl2 = of_nat (Suc k - 1)"
    by (simp add: pl2_def r)
qed

lemma cycle_loop:
  fixes pl :: "'p::zero AnamPool"
  assumes "platform_ok pl" and "a \<in> slot_addrs pl"
    and "free_head pl = encode_handle (of_nat k) a ANAM_STATE_FREE"
    and "hdr_generation pl (get_header a) = of_nat k"
    and "generation_max pl = of_nat (k - 1)"
    and "k + n \<le> 65536"
  shows "fst (alloc_release_loop n pl) = map (\<lambda>i. encode_handle (of_nat i) a ANAM_STATE_LIVE) [k..<k + n]
       \<and> platform_ok (snd (alloc_release_loop n pl))
       \<and> slot_addrs (snd (alloc_release_loop n pl)) = slot_addrs pl
       \<and> hdr_generation (snd (alloc_release_loop n pl)) (get_header a) = of_nat (k + n)
       \<and> generation_max (snd (alloc_release_loop n pl)) = of_nat (k + n - 1)"
  using assms
proof (induction n arbitrary: pl k)
  case 0
  then show ?case by simp
next
  case (Suc n)
  let ?h = "encode_handle (of_nat k) a ANAM_STATE_LIVE"
  let ?pl2 = "snd (anam_release (snd (anam_alloc pl)) ?h)"
  have k: "k < 65536" using Suc.prems(6) by simp
  note r = cycle_round [OF Suc.prems(1-5) k]
  have ih: "fst (alloc_release_loop n ?pl2)
              = map (\<lambda>i. encode_handle (of_nat i) a ANAM_STATE_LIVE) [Suc k..<Suc k + n]
       \<and> platform_ok (snd (alloc_release_loop n ?pl2))
       \<and> slot_addrs (snd (alloc_release_loop n ?pl2)) = slot_addrs ?pl2
       \<and> hdr_generation (snd (alloc_release_loop n ?pl2)) (get_header a) = of_nat (Suc k + n)
       \<and> generation_max (snd (alloc_release_loop n ?pl2)) = of_nat (Suc k + n - 1)"
    using Suc.prems(2,6) by (intro Suc.IH r) (simp_all add: r)
  have e: "alloc_release_loop (Suc n) pl
             = (?h # fst (alloc_release_loop n ?pl2), snd (alloc_release_loop n ?pl2))"
    by (simp add: split_beta Let_def r(1))
  have u: "[k..<k + Suc n] = k # [Suc k..<Suc k + n]"
    by (simp add: upt_rec)
  show ?case
    using ih by (simp only: e u fst_conv snd_conv list.map r(3)) simp
qed

text \<open>
  Claim C4.  For a pool created with \<open>slot_count = 1\<close>, 1000 rounds of
  \<^verbatim>\<open>h = alloc; release(h)\<close> return 1000 handles, the \<open>i\<close>-th of generation \<open>i\<close>; afterwards
  \<open>generation_max\<close> in the statistics is 999 and no handle of the loop validates (in
  particular none of the first 999), whatever \<open>anamnesis_count\<close> has become by then.
\<close>

theorem generation_cycling:
  fixes pl0 :: "'p::zero AnamPool"
  assumes "anam_pool_create config calloc_ok mem raw = Some pl0"
    and "platform_ok pl0"
    and "slot_count pl0 = 1"
  shows "let (hs, pl) = alloc_release_loop 1000 pl0 in
           length hs = 1000
         \<and> (\<forall>i<1000. anam_generation (hs ! i) = of_nat i)
         \<and> st_generation_max (anam_pool_stats pl) = 999
         \<and> (\<forall>j<1000. \<forall>c. \<not> fst (anam_validate (pl\<lparr>anamnesis_count := c\<rparr>) (hs ! j)))"
proof -
  obtain cfg where c: "anam_pool_create (Some cfg) calloc_ok mem raw = Some pl0"
    using assms(1) by (cases config) (auto simp: anam_pool_create_None)
  let ?a = "slot_addr pl0 0"
  have i0: "0 < unat (slot_count pl0)" by (simp add: assms(3))
  have a: "?a \<in> slot_addrs pl0"
    using i0 by (auto simp: slot_addrs_def)
  have g0: "hdr_generation pl0 (get_header ?a) = of_nat 0"
    using anam_pool_create_generation [OF c assms(2) i0] by simp
  have "pool_inv pl0 (map (slot_addr pl0) [0..<unat (slot_count pl0)]) {}"
    using c assms(2) by (rule anam_pool_create_inv)
  then have "free_chain pl0 (free_head pl0) [?a]"
    by (simp add: pool_inv_def assms(3))
  then have fh: "free_head pl0 = encode_handle (of_nat 0) ?a ANAM_STATE_FREE"
    using g0 by simp
  have gm: "generation_max pl0 = of_nat (0 - 1)"
    using anam_pool_create_inv(4) [OF c assms(2)] by simp
  let ?hs = "fst (alloc_release_loop 1000 pl0)" and ?pl = "snd (alloc_release_loop 1000 pl0)"
  have L: "?hs = map (\<lambda>i. encode_handle (of_nat i) ?a ANAM_STATE_LIVE) [0..<0 + 1000]
       \<and> platform_ok ?pl \<and> slot_addrs ?pl = slot_addrs pl0
       \<and> hdr_generation ?pl (get_header ?a) = of_nat (0 + 1000)
       \<and> generation_max ?pl = of_nat (0 + 1000 - 1)"
    by (rule cycle_loop [OF assms(2) a fh g0 gm]) simp
  then have hs: "?hs = map (\<lambda>i. encode_handle (of_nat i) ?a ANAM_STATE_LIVE) [0..<1000]"
    and gen: "hdr_generation ?pl (get_header ?a) = 1000"
    and mx: "generation_max ?pl = 999"
    by simp_all
  have len: "length ?hs = 1000" by (simp add: hs)
  have nth: "?hs ! i = encode_handle (of_nat i) ?a ANAM_STATE_LIVE" if "i < 1000" for i
    using that by (simp add: hs)
  have gens: "anam_generation (?hs ! i) = of_nat i" if "i < 1000" for i
    using decode_gen_encode [of "of_nat i" ?a ANAM_STATE_LIVE]
    by (simp add: nth [OF that] anam_generation_def decode_gen_def)
  have stale: "\<not> fst (anam_validate (?pl\<lparr>anamnesis_count := c\<rparr>) (?hs ! j))" if "j < 1000" for j c
  proof -
    have "(of_nat j :: 16 word) \<noteq> of_nat 1000"
      using that by (simp add: of_nat_16_inj del: of_nat_numeral)
    then have "decode_gen (?hs ! j) \<noteq> hdr_generation ?pl (get_header ?a)"
      by (simp add: nth [OF that] decode_gen_encode gen)
    moreover have "decode_addr (?hs ! j) = ?a"
      by (simp add: nth [OF that] decode_addr_encode slot_addrs_props(1) [OF assms(2) a])
    ultimately have "\<not> authenticates (?pl\<lparr>anamnesis_count := c\<rparr>) (?hs ! j)"
      by (auto simp: authenticates_def)
    then show ?thesis
      by (simp add: anam_validate_def split_beta anam_get_not_auth)
  qed
  show ?thesis
    using len gens mx stale by (simp add: split_beta anam_pool_stats_def)
qed

theorem generation_cycling_witness:
  "anam_pool_create (Some one_slot_config) True 0x1000 raw_zero = Some one_slot_pool
   \<and> platform_ok one_slot_pool \<and> slot_count one_slot_pool = 1
   \<and> (let (hs, pl) = alloc_release_loop 1000 one_slot_pool in
           length hs = 1000
         \<and> (\<forall>i<1000. anam_generation (hs ! i) = of_nat i)
         \<and> st_generation_max (anam_pool_stats pl) = 999
         \<and> (\<forall>j<1000. \<forall>c. \<not> fst (anam_validate (pl\<lparr>anamnesis_count := c\<rparr>) (hs ! j))))"
proof -
  have c: "anam_pool_create (Some one_slot_config) True 0x1000 raw_zero = Some one_slot_pool"
    by (simp only: one_slot_pool_create one_slot_pool_val)
  have s: "slot_count one_slot_pool = 1"
    by (simp add: one_slot_pool_val)
  from c one_slot_pool_platform_ok s generation_cycling [OF c one_slot_pool_platform_ok s]
  show ?thesis by (intro conjI)
qed

section \<open>The queue\<close>

lemma pool_inv_payload [simp]:
  "pool_inv (pl\<lparr>payload := f\<rparr>) fs live = pool_inv pl fs live"
proof -
  have "free_chain (pl\<lparr>payload := f\<rparr>) h fs = free_chain pl h fs" for h
    by (rule free_chain_frame) simp
  then show ?thesis
    by (simp add: pool_inv_def platform_ok_def slot_addrs_def slot_addr_def slot_from_index_def
        live_handle_def)
qed

lemma store_node_simps [simp]:
  "pool_inv (store_node_next pl a h) fs live = pool_inv pl fs live"
  "pool_inv (store_node_data pl a d) fs live = pool_inv pl fs live"
  "zero_on_alloc (store_node_next pl a h) = zero_on_alloc pl"
  "zero_on_alloc (store_node_data pl a d) = zero_on_alloc pl"
  "zero_on_release (store_node_next pl a h) = zero_on_release pl"
  "zero_on_release (store_node_data pl a d) = zero_on_release pl"
  "slot_count (store_node_next pl a h) = slot_count pl"
  "slot_count (store_node_data pl a d) = slot_count pl"
  "payload (store_node_next pl a h) b =
     (if b = a then QueueNode h (node_data (payload pl a)) else payload pl b)"
  "payload (store_node_data pl a d) b =
     (if b = a then QueueNode (node_next (payload pl a)) d else payload pl b)"
  by (simp_all add: store_node_next_def store_node_data_def)

lemma node_chain_frame:
  assumes "\<forall>h'\<in>set (h # hs). payload pl' (decode_addr h') = payload pl (decode_addr h')"
  shows "node_chain pl' h hs = node_chain pl h hs"
  using assms by (induction hs arbitrary: h) auto

lemma node_chain_last:
  "node_chain pl h hs \<Longrightarrow> node_next (payload pl (decode_addr (last (h # hs)))) = ANAM_NULL"
  by (induction hs arbitrary: h) auto

lemma node_chain_append:
  assumes "node_chain pl h hs"
    and "inj_on decode_addr (set (h # hs @ [n]))" and "distinct (h # hs @ [n])"
    and "node_next (payload pl (decode_addr n)) = ANAM_NULL"
  shows "node_chain (store_node_next pl (decode_addr (last (h # hs))) n) h (hs @ [n])"
  using assms
proof (induction hs arbitrary: h)
  case Nil
  have "decode_addr n \<noteq> decode_addr h"
  proof
    assume "decode_addr n = decode_addr h"
    then have "n = h" by (rule inj_onD [OF Nil.prems(2)]) simp_all
    then show False using Nil.prems(3) by simp
  qed
  then show ?case using Nil.prems(4) by simp
next
  case (Cons h1 hs)
  have "last (h1 # hs) \<in> set (h1 # hs)" by (rule last_in_set) simp
  then have l: "last (h1 # hs) \<noteq> h" "last (h1 # hs) \<in> set (h # (h1 # hs) @ [n])"
    using Cons.prems(3) by auto
  have ne: "decode_addr h \<noteq> decode_addr (last (h1 # hs))"
  proof
    assume "decode_addr h = decode_addr (last (h1 # hs))"
    then have "h = last (h1 # hs)"
      by (rule inj_onD [OF Cons.prems(2) _ _ l(2)]) simp
    then show False using l(1) by simp
  qed
  have "inj_on decode_addr (set (h1 # hs @ [n]))"
    by (rule inj_on_subset [OF Cons.prems(2)]) auto
  moreover have "distinct (h1 # hs @ [n])" "node_chain pl h1 hs"
    using Cons.prems(1,3) by simp_all
  ultimately have "node_chain (store_node_next pl (decode_addr (last (h1 # hs))) n) h1 (hs @ [n])"
    using Cons.prems(4) by (intro Cons.IH)
  then show ?case
    using Cons.prems(1) ne by simp
qed

lemma node_data_store_next:
  "map (\<lambda>h. node_data (payload (store_node_next pl a n) (decode_addr h))) hs
     = map (\<lambda>h. node_data (payload pl (decode_addr h))) hs"
  by (induction hs) auto

lemma live_handle_roundtrip:
  assumes "live_handle pl h"
  shows "encode_handle (decode_gen h) (decode_addr h) ANAM_STATE_LIVE = h"
proof -
  let ?a = "decode_addr h"
  have e: "h = encode_handle (hdr_generation pl (get_header ?a)) ?a ANAM_STATE_LIVE"
    using assms by (simp add: live_handle_def)
  have "decode_gen h = hdr_generation pl (get_header ?a)"
    by (subst e) (simp add: decode_gen_encode)
  then show ?thesis using e by simp
qed

lemma live_handle_store [simp]:
  "live_handle (store_node_next pl a h) = live_handle pl"
  "live_handle (store_node_data pl a d) = live_handle pl"
  "platform_ok (store_node_next pl a h) = platform_ok pl"
  "platform_ok (store_node_data pl a d) = platform_ok pl"
  by (simp_all add: fun_eq_iff live_handle_def slot_addrs_def slot_addr_def slot_from_index_def
      platform_ok_def store_node_next_def store_node_data_def)

lemma pool_inv_alloc_more:
  fixes pl :: "'p::zero AnamPool"
  assumes inv: "pool_inv pl (a # fs) live"
  shows "payload (snd (anam_alloc pl)) = (if zero_on_alloc pl then (payload pl)(a := 0) else payload pl)"
    and "zero_on_alloc (snd (anam_alloc pl)) = zero_on_alloc pl"
    and "zero_on_release (snd (anam_alloc pl)) = zero_on_release pl"
    and "slot_count (snd (anam_alloc pl)) = slot_count pl"
proof -
  have ok: "platform_ok pl"
    and ch: "free_head pl = encode_handle (hdr_generation pl (get_header a)) a ANAM_STATE_FREE"
    and sub: "a \<in> slot_addrs pl"
    using inv by (auto simp: pool_inv_def)
  note ap = slot_addrs_props [OF ok sub]
  note f = anam_alloc_fields [OF ch ap(1) ap(2) refl]
  show "payload (snd (anam_alloc pl)) = (if zero_on_alloc pl then (payload pl)(a := 0) else payload pl)"
    and "zero_on_alloc (snd (anam_alloc pl)) = zero_on_alloc pl"
    and "zero_on_release (snd (anam_alloc pl)) = zero_on_release pl"
    and "slot_count (snd (anam_alloc pl)) = slot_count pl"
    by (simp_all add: f)
qed

lemma pool_inv_release_more:
  fixes pl :: "'p::zero AnamPool"
  assumes inv: "pool_inv pl fs live" and h: "h \<in> live"
  shows "payload (snd (anam_release pl h)) =
           (if zero_on_release pl then (payload pl)(decode_addr h := 0) else payload pl)"
    and "zero_on_alloc (snd (anam_release pl h)) = zero_on_alloc pl"
    and "zero_on_release (snd (anam_release pl h)) = zero_on_release pl"
    and "slot_count (snd (anam_release pl h)) = slot_count pl"
proof -
  have ok: "platform_ok pl" and lv: "live_handle pl h"
    using inv h by (auto simp: pool_inv_def)
  note f = anam_release_fields [OF live_handle_authenticates(1) [OF ok lv]]
  show "payload (snd (anam_release pl h)) =
           (if zero_on_release pl then (payload pl)(decode_addr h := 0) else payload pl)"
    and "zero_on_alloc (snd (anam_release pl h)) = zero_on_alloc pl"
    and "zero_on_release (snd (anam_release pl h)) = zero_on_release pl"
    and "slot_count (snd (anam_release pl h)) = slot_count pl"
    by (simp_all add: f)
qed

lemma pool_inv_get_live:
  assumes "pool_inv pl fs live" "h \<in> live"
  shows "anam_get pl h = (decode_addr h, pl)" "decode_addr h \<noteq> 0"
    "encode_handle (decode_gen h) (decode_addr h) ANAM_STATE_LIVE = h"
proof -
  have ok: "platform_ok pl" and lv: "live_handle pl h"
    using assms by (auto simp: pool_inv_def)
  show "anam_get pl h = (decode_addr h, pl)" by (rule anam_get_live [OF ok lv])
  show "decode_addr h \<noteq> 0" by (rule live_handle_authenticates(2) [OF ok lv])
  show "encode_handle (decode_gen h) (decode_addr h) ANAM_STATE_LIVE = h"
    by (rule live_handle_roundtrip [OF lv])
qed

lemma queue_push_ok:
  fixes q :: "'a::zero AnamQueue"
  assumes inv: "queue_inv q hs (a # fs) xs"
  shows "\<exists>h q'. anam_queue_push q (Some x) = Some (h, q') \<and> h \<noteq> ANAM_NULL
           \<and> queue_inv q' (hs @ [h]) fs (xs @ [x])
           \<and> q'\<lparr>pool := pool q, tail := tail q\<rparr>
               = q\<lparr>qlength := qlength q + 1, push_count := push_count q + 1\<rparr>"
proof -
  define pl where "pl = pool q"
  define L where "L = set (head q # hs)"
  define h where "h = encode_handle (hdr_generation pl (get_header a)) a ANAM_STATE_LIVE"
  define pl1 where "pl1 = snd (anam_alloc pl)"
  define pl3 where "pl3 = store_node_data (store_node_next pl1 a ANAM_NULL) a x"
  define t where "t = tail q"
  define pl4 where "pl4 = store_node_next pl3 (decode_addr t) h"
  have pinv: "pool_inv pl (a # fs) L"
    and dist: "distinct (head q # hs)"
    and chain: "node_chain pl (head q) hs"
    and tl: "t = last (head q # hs)"
    and data: "map (\<lambda>h. node_data (payload pl (decode_addr h))) hs = xs"
    and zf: "\<not> zero_on_alloc pl" "\<not> zero_on_release pl"
    and cnt: "unat (slot_count pl) = unat (capacity q) + 1"
    using inv by (simp_all add: queue_inv_def pl_def L_def t_def)
  note pa = pool_inv_alloc [OF pinv, folded h_def pl1_def]
  note pm = pool_inv_alloc_more [OF pinv, folded pl1_def]
  have pay1: "payload pl1 = payload pl" using pm(1) zf by simp
  have hL: "h \<in> insert h L" by simp
  note g1 = pool_inv_get_live [OF pa(5) hL]
  have an: "alloc_node q (Some x) = (h, q\<lparr>pool := pl3\<rparr>)"
    using pa(1,3) g1(1)
    by (simp add: alloc_node_def split_beta anam_is_null_def pl_def [symmetric]
        pl1_def [symmetric] pa(4) pl3_def)
  have inv3: "pool_inv pl3 fs (insert h L)"
    using pa(5) by (simp add: pl3_def)
  have tL: "t \<in> L" unfolding tl L_def by (rule last_in_set) simp
  then have tL': "t \<in> insert h L" by simp
  note g3 = pool_inv_get_live [OF inv3 tL']
  have notin: "a \<notin> decode_addr ` L"
    using pinv by (auto simp: pool_inv_def)
  have ta: "decode_addr t \<noteq> a" using notin tL by auto
  have pay3: "payload pl3 b = payload pl b" if "b \<noteq> a" for b
    using that by (simp add: pl3_def pay1)
  have pay3a: "payload pl3 a = QueueNode ANAM_NULL x"
    by (simp add: pl3_def)
  have chain3: "node_chain pl3 (head q) hs"
  proof -
    have "node_chain pl3 (head q) hs = node_chain pl (head q) hs"
    proof (rule node_chain_frame, rule ballI)
      fix h' assume "h' \<in> set (head q # hs)"
      then have "decode_addr h' \<noteq> a" using notin by (auto simp: L_def)
      then show "payload pl3 (decode_addr h') = payload pl (decode_addr h')" by (rule pay3)
    qed
    then show ?thesis using chain by simp
  qed
  have tnext: "node_next (payload pl3 (decode_addr t)) = ANAM_NULL"
    using node_chain_last [OF chain3] by (simp add: tl)
  have loop: "anam_queue_push_loop (q\<lparr>pool := pl3\<rparr>) h
                = Some (q\<lparr>pool := pl4\<rparr>)"
    by (subst anam_queue_push_loop.simps)
      (simp add: Let_def t_def [symmetric] g3 tnext anam_is_null_def pl4_def)
  define q' where "q' = q\<lparr>pool := pl4, tail := h, qlength := qlength q + 1,
                       push_count := push_count q + 1\<rparr>"
  have push: "anam_queue_push q (Some x) = Some (h, q')"
    using pa(3) by (simp add: anam_queue_push_def an loop anam_is_null_def Let_def g1(3) q'_def)
  have inv4: "pool_inv pl4 fs (set (head q # hs @ [h]))"
  proof -
    have "set (head q # hs @ [h]) = insert h L" by (auto simp: L_def)
    then show ?thesis using inv3 by (simp add: pl4_def)
  qed
  have dist4: "distinct (head q # hs @ [h])"
    using dist pa(2) by (auto simp: L_def)
  have inj4: "inj_on decode_addr (set (head q # hs @ [h]))"
    using inv4 by (simp add: pool_inv_def)
  have chain4: "node_chain pl4 (head q) (hs @ [h])"
    unfolding pl4_def tl
    by (rule node_chain_append [OF chain3 inj4 dist4]) (simp add: pa(4) pay3a)
  have data4: "map (\<lambda>h. node_data (payload pl4 (decode_addr h))) (hs @ [h]) = xs @ [x]"
  proof -
    have "map (\<lambda>h. node_data (payload pl3 (decode_addr h))) hs
            = map (\<lambda>h. node_data (payload pl (decode_addr h))) hs"
    proof (rule map_cong [OF refl])
      fix h' assume "h' \<in> set hs"
      then have "decode_addr h' \<noteq> a" using notin by (auto simp: L_def)
      then show "node_data (payload pl3 (decode_addr h')) = node_data (payload pl (decode_addr h'))"
        by (simp add: pay3)
    qed
    moreover have "node_data (payload pl4 (decode_addr h)) = x"
      using ta by (simp add: pl4_def pa(4) pay3a)
    moreover have "map (\<lambda>h. node_data (payload pl4 (decode_addr h))) hs
            = map (\<lambda>h. node_data (payload pl3 (decode_addr h))) hs"
      unfolding pl4_def by (rule node_data_store_next)
    ultimately show ?thesis
      by (simp add: data)
  qed
  have fl4: "\<not> zero_on_alloc pl4" "\<not> zero_on_release pl4"
    "unat (slot_count pl4) = unat (capacity q) + 1"
    using zf cnt by (simp_all add: pl4_def pl3_def pm)
  have "queue_inv q' (hs @ [h]) fs (xs @ [x])"
    unfolding queue_inv_def using inv4 dist4 chain4 data4 fl4 by (simp add: q'_def)
  moreover have "q'\<lparr>pool := pool q, tail := tail q\<rparr>
               = q\<lparr>qlength := qlength q + 1, push_count := push_count q + 1\<rparr>"
    by (simp add: q'_def)
  ultimately show ?thesis
    using push pa(3) by blast
qed

lemma queue_push_full:
  fixes q :: "'a::zero AnamQueue"
  assumes inv: "queue_inv q hs [] xs"
  shows "anam_queue_push q (Some x) = Some (ANAM_NULL, q\<lparr>push_fails := push_fails q + 1\<rparr>)"
proof -
  have "anam_alloc (pool q) = (ANAM_NULL, pool q)"
    using inv by (intro pool_inv_alloc_empty) (auto simp: queue_inv_def)
  then have "alloc_node q (Some x) = (ANAM_NULL, q)"
    by (simp add: alloc_node_def anam_is_null_def)
  then show ?thesis
    by (simp add: anam_queue_push_def anam_is_null_def)
qed

lemma pool_inv_live_nonnull:
  fixes pl :: "'p AnamPool"
  assumes "pool_inv pl fs live" "h \<in> live"
  shows "h \<noteq> ANAM_NULL"
proof -
  have ok: "platform_ok pl" and lv: "live_handle pl h"
    using assms by (auto simp: pool_inv_def)
  from live_handle_authenticates(1) [OF ok lv] show ?thesis
    by (simp add: authenticates_def)
qed

lemma queue_pop_ok:
  fixes q :: "'a::zero AnamQueue"
  assumes inv: "queue_inv q (h1 # hs) fs (x # xs)"
  defines "q' \<equiv> q\<lparr>head := h1, pool := snd (anam_release (pool q) (head q)),
                    qlength := qlength q - 1, pop_count := pop_count q + 1\<rparr>"
  shows "anam_queue_pop q out = Some (True, (if out \<noteq> None then Some x else None), q')"
    and "queue_inv q' hs (decode_addr (head q) # fs) xs"
proof -
  define pl where "pl = pool q"
  define L where "L = set (head q # h1 # hs)"
  define pl' where "pl' = snd (anam_release pl (head q))"
  have pinv: "pool_inv pl fs L"
    and dist: "distinct (head q # h1 # hs)"
    and nx: "node_next (payload pl (decode_addr (head q))) = h1"
    and chain: "node_chain pl h1 hs"
    and tl: "tail q = last (h1 # hs)"
    and data: "node_data (payload pl (decode_addr h1)) = x"
      "map (\<lambda>h. node_data (payload pl (decode_addr h))) hs = xs"
    and zf: "\<not> zero_on_alloc pl" "\<not> zero_on_release pl"
    and cnt: "unat (slot_count pl) = unat (capacity q) + 1"
    using inv by (simp_all add: queue_inv_def pl_def L_def)
  have h0L: "head q \<in> L" and h1L: "h1 \<in> L" by (simp_all add: L_def)
  note g0 = pool_inv_get_live [OF pinv h0L]
  note g1 = pool_inv_get_live [OF pinv h1L]
  have "last (h1 # hs) \<in> set (h1 # hs)" by (rule last_in_set) simp
  then have ne: "head q \<noteq> tail q" using dist tl by auto
  note pr = pool_inv_release [OF pinv h0L, folded pl'_def]
  note pm = pool_inv_release_more [OF pinv h0L, folded pl'_def]
  have rel: "anam_release pl (head q) = (True, pl')"
    using pr(1) by (simp add: pl'_def prod_eq_iff)
  have q'': "q' = q\<lparr>head := h1, pool := pl', qlength := qlength q - 1,
                     pop_count := pop_count q + 1\<rparr>"
    by (simp add: q'_def pl'_def pl_def)
  show "anam_queue_pop q out = Some (True, (if out \<noteq> None then Some x else None), q')"
    unfolding q'' using ne
    by (subst anam_queue_pop.simps)
      (simp add: Let_def pl_def [symmetric] g0 g1 nx data rel)
  have pay: "payload pl' = payload pl" using pm(1) zf by simp
  have Ls: "L - {head q} = set (h1 # hs)" using dist by (auto simp: L_def)
  have "node_chain pl' h1 hs = node_chain pl h1 hs"
    by (rule node_chain_frame) (simp add: pay)
  then show "queue_inv q' hs (decode_addr (head q) # fs) xs"
    unfolding queue_inv_def
    using pr(2) dist chain tl data(2) zf cnt
    by (simp add: q'' Ls pay pm)
qed

lemma queue_pop_empty:
  fixes q :: "'a::zero AnamQueue"
  assumes inv: "queue_inv q [] fs []"
  shows "anam_queue_pop q out = Some (False, out, q\<lparr>pop_fails := pop_fails q + 1\<rparr>)"
proof -
  have pinv: "pool_inv (pool q) fs {head q}"
    and nx: "node_next (payload (pool q) (decode_addr (head q))) = ANAM_NULL"
    and tl: "tail q = head q"
    using inv by (simp_all add: queue_inv_def)
  have "head q \<in> {head q}" by simp
  note g0 = pool_inv_get_live [OF pinv this]
  show ?thesis
    by (subst anam_queue_pop.simps) (simp add: Let_def g0 nx tl anam_is_null_def)
qed

lemma queue_empty_iff:
  assumes inv: "queue_inv q hs fs xs"
  shows "anam_queue_empty q = (xs = [], q)"
proof -
  have pinv: "pool_inv (pool q) fs (set (head q # hs))"
    and chain: "node_chain (pool q) (head q) hs"
    and len: "length hs = length xs"
    using inv by (auto simp: queue_inv_def)
  have "head q \<in> set (head q # hs)" by simp
  note g0 = pool_inv_get_live [OF pinv this]
  show ?thesis
  proof (cases hs)
    case Nil
    then show ?thesis
      using chain len by (simp add: anam_queue_empty_def Let_def g0 anam_is_null_def)
  next
    case (Cons h1 hs')
    then have "h1 \<noteq> ANAM_NULL"
      by (intro pool_inv_live_nonnull [OF pinv]) simp
    then show ?thesis
      using chain len Cons by (auto simp: anam_queue_empty_def Let_def g0 anam_is_null_def)
  qed
qed

lemma anam_queue_create_Some:
  fixes q :: "'a::zero AnamQueue"
  assumes "anam_queue_create config q_calloc_ok pool_calloc_ok mem raw = Some q"
  obtains cfg ns pl0 dummy q1 where
    "cfg = (case config of None \<Rightarrow> ANAM_QUEUE_DEFAULT | Some c \<Rightarrow> c)"
    "ns = (sizeof_QueueNode + cfg_item_size cfg + 7) AND NOT 7"
    "anam_pool_create
       (Some \<lparr>cfg_slot_size = ns, cfg_slot_count = cfg_capacity cfg + 1, cfg_alignment = 0,
              cfg_zero_on_alloc = False, cfg_zero_on_release = False\<rparr>)
       pool_calloc_ok mem raw = Some pl0"
    "alloc_node \<lparr>item_size = cfg_item_size cfg, capacity = cfg_capacity cfg,
                 node_size = ns, pool = pl0, head = 0, tail = 0, qlength = 0,
                 push_count = 0, pop_count = 0, push_fails = 0, pop_fails = 0,
                 aba_prevented = 0\<rparr> None = (dummy, q1)"
    "dummy \<noteq> ANAM_NULL" "q = q1\<lparr>head := dummy, tail := dummy\<rparr>"
  using assms unfolding anam_queue_create_def
  by (auto simp: Let_def anam_is_null_def split: if_splits option.splits prod.splits)

lemma alloc_node_layout:
  "slots_base (pool (snd (alloc_node q d))) = slots_base (pool q)"
  "slot_stride (pool (snd (alloc_node q d))) = slot_stride (pool q)"
  "slot_count (pool (snd (alloc_node q d))) = slot_count (pool q)"
  by (simp_all add: alloc_node_def split_beta Let_def anam_alloc_layout anam_get_layout
      store_node_next_def store_node_data_def split: option.splits)

lemma queue_create_inv:
  fixes q :: "'a::zero AnamQueue"
  assumes c: "anam_queue_create config q_calloc_ok pool_calloc_ok mem raw = Some q"
    and ok: "platform_ok (pool q)"
  shows "\<exists>fs. queue_inv q [] fs [] \<and> length fs = unat (capacity q)"
    and "capacity q = cfg_capacity (case config of None \<Rightarrow> ANAM_QUEUE_DEFAULT | Some c \<Rightarrow> c)"
    and "qlength q = 0" and "push_count q = 0" and "pop_count q = 0"
    and "push_fails q = 0" and "pop_fails q = 0" and "aba_prevented q = 0"
proof -
  from c obtain cfg ns pl0 dummy q1 where
    cfg: "cfg = (case config of None \<Rightarrow> ANAM_QUEUE_DEFAULT | Some c \<Rightarrow> c)"
    and pc: "anam_pool_create
       (Some \<lparr>cfg_slot_size = ns, cfg_slot_count = cfg_capacity cfg + 1, cfg_alignment = 0,
              cfg_zero_on_alloc = False, cfg_zero_on_release = False\<rparr>)
       pool_calloc_ok mem raw = Some pl0"
    and an: "alloc_node \<lparr>item_size = cfg_item_size cfg, capacity = cfg_capacity cfg,
                 node_size = ns, pool = pl0, head = 0, tail = 0, qlength = 0,
                 push_count = 0, pop_count = 0, push_fails = 0, pop_fails = 0,
                 aba_prevented = 0\<rparr> None = (dummy, q1)"
    and dn: "dummy \<noteq> ANAM_NULL" and q: "q = q1\<lparr>head := dummy, tail := dummy\<rparr>"
    by (rule anam_queue_create_Some)
  let ?q0 = "\<lparr>item_size = cfg_item_size cfg, capacity = cfg_capacity cfg,
                 node_size = ns, pool = pl0, head = 0, tail = 0, qlength = 0,
                 push_count = 0, pop_count = 0, push_fails = 0, pop_fails = 0,
                 aba_prevented = 0 :: 64 word\<rparr>"
  have q1: "q1 = snd (alloc_node ?q0 None)" by (simp add: an)
  have ok0: "platform_ok pl0"
    using ok alloc_node_layout [of ?q0 None] by (simp add: q q1 platform_ok_def)
  note ci = anam_pool_create_inv [OF pc ok0]
  have sc: "slot_count pl0 = cfg_capacity cfg + 1" using ci(2) by simp
  have "cfg_capacity cfg + 1 \<noteq> 0"
    using pc by (auto simp: anam_pool_create_def Let_def split: if_splits)
  then have "1 + cfg_capacity cfg \<noteq> 0" by (simp add: add.commute)
  then have "unat (1 + cfg_capacity cfg) = Suc (unat (cfg_capacity cfg))" by (rule unatSuc)
  then have un: "unat (slot_count pl0) = unat (cfg_capacity cfg) + 1"
    by (simp add: sc add.commute)
  define fs where "fs = map (slot_addr pl0) [1..<unat (slot_count pl0)]"
  have "[0..<unat (slot_count pl0)] = 0 # [1..<unat (slot_count pl0)]"
    using un by (simp add: upt_rec)
  then have pinv: "pool_inv pl0 (slot_addr pl0 0 # fs) {}"
    using ci(1) by (simp add: fs_def)
  define h where "h = encode_handle (hdr_generation pl0 (get_header (slot_addr pl0 0)))
                        (slot_addr pl0 0) ANAM_STATE_LIVE"
  define pl1 where "pl1 = snd (anam_alloc pl0)"
  note pa = pool_inv_alloc [OF pinv, folded h_def pl1_def]
  note pm = pool_inv_alloc_more [OF pinv, folded pl1_def]
  have hL: "h \<in> insert h {}" by simp
  note g1 = pool_inv_get_live [OF pa(5) hL]
  have an': "alloc_node ?q0 None = (h, ?q0\<lparr>pool := store_node_next pl1 (slot_addr pl0 0) ANAM_NULL\<rparr>)"
    using pa(1,3) g1(1)
    by (simp add: alloc_node_def split_beta anam_is_null_def pl1_def [symmetric] pa(4))
  have qq: "q = ?q0\<lparr>pool := store_node_next pl1 (slot_addr pl0 0) ANAM_NULL, head := h, tail := h\<rparr>"
    using an an' q by simp
  have "queue_inv q [] fs []"
    unfolding queue_inv_def using pa(5) ci(5,6) un
    by (simp add: qq pm pa(4))
  moreover have "length fs = unat (capacity q)"
    using un by (simp add: fs_def qq)
  ultimately show "\<exists>fs. queue_inv q [] fs [] \<and> length fs = unat (capacity q)" by blast
  show "capacity q = cfg_capacity (case config of None \<Rightarrow> ANAM_QUEUE_DEFAULT | Some c \<Rightarrow> c)"
    and "qlength q = 0" and "push_count q = 0" and "pop_count q = 0"
    and "push_fails q = 0" and "pop_fails q = 0" and "aba_prevented q = 0"
    by (simp_all add: qq cfg)
qed

lemma queue_push_fields:
  fixes q :: "'a::zero AnamQueue"
  assumes "q'\<lparr>pool := pool q, tail := tail q\<rparr>
               = q\<lparr>qlength := qlength q + 1, push_count := push_count q + 1\<rparr>"
  shows "qlength q' = qlength q + 1" "push_count q' = push_count q + 1"
    "push_fails q' = push_fails q" "capacity q' = capacity q"
    "pop_count q' = pop_count q" "pop_fails q' = pop_fails q"
proof -
  show "qlength q' = qlength q + 1" using arg_cong [OF assms, of qlength] by simp
  show "push_count q' = push_count q + 1" using arg_cong [OF assms, of push_count] by simp
  show "push_fails q' = push_fails q" using arg_cong [OF assms, of push_fails] by simp
  show "capacity q' = capacity q" using arg_cong [OF assms, of capacity] by simp
  show "pop_count q' = pop_count q" using arg_cong [OF assms, of pop_count] by simp
  show "pop_fails q' = pop_fails q" using arg_cong [OF assms, of pop_fails] by simp
qed

lemma push_all_ok:
  fixes q :: "'a::zero AnamQueue"
  shows "queue_inv q hs fs xs \<Longrightarrow> length ys \<le> length fs \<Longrightarrow>
    \<exists>hs' q'. push_all q ys = Some (hs', q') \<and> length hs' = length ys
      \<and> (\<forall>h\<in>set hs'. h \<noteq> ANAM_NULL)
      \<and> queue_inv q' (hs @ hs') (drop (length ys) fs) (xs @ ys)
      \<and> qlength q' = qlength q + of_nat (length ys)
      \<and> push_count q' = push_count q + of_nat (length ys)
      \<and> push_fails q' = push_fails q \<and> capacity q' = capacity q"
proof (induction ys arbitrary: q hs fs xs)
  case Nil
  then show ?case by simp
next
  case (Cons y ys)
  from Cons.prems(2) obtain a fs' where fs: "fs = a # fs'" by (cases fs) auto
  from queue_push_ok [OF Cons.prems(1) [unfolded fs], of y]
  obtain h q1 where p: "anam_queue_push q (Some y) = Some (h, q1)" "h \<noteq> ANAM_NULL"
    "queue_inv q1 (hs @ [h]) fs' (xs @ [y])"
    "q1\<lparr>pool := pool q, tail := tail q\<rparr>
       = q\<lparr>qlength := qlength q + 1, push_count := push_count q + 1\<rparr>"
    by blast
  note f = queue_push_fields [OF p(4)]
  have "length ys \<le> length fs'" using Cons.prems(2) fs by simp
  from Cons.IH [OF p(3) this]
  obtain hs' q' where r: "push_all q1 ys = Some (hs', q')" "length hs' = length ys"
    "\<forall>h\<in>set hs'. h \<noteq> ANAM_NULL"
    "queue_inv q' ((hs @ [h]) @ hs') (drop (length ys) fs') ((xs @ [y]) @ ys)"
    "qlength q' = qlength q1 + of_nat (length ys)"
    "push_count q' = push_count q1 + of_nat (length ys)"
    "push_fails q' = push_fails q1" "capacity q' = capacity q1"
    by blast
  have "push_all q (y # ys) = Some (h # hs', q')"
    by (simp add: p(1) r(1))
  moreover have "queue_inv q' (hs @ h # hs') (drop (length (y # ys)) fs) (xs @ y # ys)"
    using r(4) by (simp add: fs)
  ultimately show ?case
    using p(2) r(2,3,5-8) f by simp
qed

lemma queue_inv_lengths:
  "queue_inv q hs fs xs \<Longrightarrow> length hs = length xs"
  "queue_inv q hs fs xs \<Longrightarrow> length fs + length xs = unat (capacity q)"
proof -
  assume inv: "queue_inv q hs fs xs"
  then show l: "length hs = length xs" by (auto simp: queue_inv_def)
  have pinv: "pool_inv (pool q) fs (set (head q # hs))"
    and d: "distinct (head q # hs)" and u: "unat (slot_count (pool q)) = unat (capacity q) + 1"
    using inv by (simp_all only: queue_inv_def)
  have "length fs + card (set (head q # hs)) = unat (slot_count (pool q))"
    using pinv by (simp only: pool_inv_def)
  moreover have "card (set (head q # hs)) = length (head q # hs)"
    using d by (rule distinct_card)
  ultimately show "length fs + length xs = unat (capacity q)"
    using l u by simp
qed

lemma pop_n_ok:
  fixes q :: "'a::zero AnamQueue"
  shows "queue_inv q hs fs xs \<Longrightarrow> n \<le> length xs \<Longrightarrow>
    \<exists>q' fs'. pop_n n q buf = Some (map (\<lambda>x. (True, x)) (take n xs), q')
      \<and> queue_inv q' (drop n hs) fs' (drop n xs)
      \<and> pop_count q' = pop_count q + of_nat n
      \<and> qlength q' = qlength q - of_nat n"
proof (induction n arbitrary: q hs fs xs buf)
  case 0
  then show ?case by auto
next
  case (Suc n)
  from Suc.prems(2) obtain x xs' where xs: "xs = x # xs'" by (cases xs) auto
  have "length hs = length xs" using Suc.prems(1) by (rule queue_inv_lengths)
  then obtain h1 hs' where hs: "hs = h1 # hs'" using xs by (cases hs) auto
  let ?q1 = "q\<lparr>head := h1, pool := snd (anam_release (pool q) (head q)),
                    qlength := qlength q - 1, pop_count := pop_count q + 1\<rparr>"
  note p = queue_pop_ok(1) [OF Suc.prems(1) [unfolded xs hs], of "Some buf"]
    queue_pop_ok(2) [OF Suc.prems(1) [unfolded xs hs]]
  have "n \<le> length xs'" using Suc.prems(2) xs by simp
  from Suc.IH [OF p(2) this, of x]
  obtain q' fs' where r: "pop_n n ?q1 x = Some (map (\<lambda>x. (True, x)) (take n xs'), q')"
    "queue_inv q' (drop n hs') fs' (drop n xs')"
    "pop_count q' = pop_count ?q1 + of_nat n" "qlength q' = qlength ?q1 - of_nat n"
    by blast
  have "pop_n (Suc n) q buf = Some (map (\<lambda>x. (True, x)) (take (Suc n) xs), q')"
    by (simp add: p(1) r(1) xs)
  then show ?case
    using r(2,3,4) by (auto simp: xs hs)
qed

lemma queue_inv_pop_fails [simp]:
  "queue_inv (q\<lparr>pop_fails := c\<rparr>) hs fs xs = queue_inv q hs fs xs"
  by (simp add: queue_inv_def)

lemma drain_ok:
  fixes q :: "'a::zero AnamQueue"
  shows "queue_inv q hs fs xs \<Longrightarrow>
    \<exists>q' fs'. anam_queue_drain q = Some q' \<and> queue_inv q' [] fs' []
      \<and> pop_count q' = pop_count q + of_nat (length xs)"
proof (induction xs arbitrary: q hs fs)
  case Nil
  then have hs: "hs = []" using queue_inv_lengths(1) [OF Nil] by simp
  note p = queue_pop_empty [OF Nil [unfolded hs], of None]
  have "anam_queue_drain q = Some (q\<lparr>pop_fails := pop_fails q + 1\<rparr>)"
    by (subst anam_queue_drain.simps) (simp add: p)
  then show ?case using Nil hs by auto
next
  case (Cons x xs)
  have "length hs = length (x # xs)" using Cons.prems by (rule queue_inv_lengths)
  then obtain h1 hs' where hs: "hs = h1 # hs'" by (cases hs) auto
  let ?q1 = "q\<lparr>head := h1, pool := snd (anam_release (pool q) (head q)),
                    qlength := qlength q - 1, pop_count := pop_count q + 1\<rparr>"
  note p = queue_pop_ok(1) [OF Cons.prems [unfolded hs], of None]
    queue_pop_ok(2) [OF Cons.prems [unfolded hs]]
  from Cons.IH [OF p(2)]
  obtain q' fs' where r: "anam_queue_drain ?q1 = Some q'" "queue_inv q' [] fs' []"
    "pop_count q' = pop_count ?q1 + of_nat (length xs)"
    by blast
  have "anam_queue_drain q = Some q'"
    by (subst anam_queue_drain.simps) (simp add: p(1) r(1))
  then show ?case using r(2,3) by auto
qed

lemma destroy_ok:
  fixes q :: "'a::zero AnamQueue"
  assumes "queue_inv q hs fs xs"
  shows "\<exists>qf. anam_queue_destroy q = Some qf
      \<and> pop_count qf = pop_count q + of_nat (length xs)
      \<and> slots_free (pool qf) = slot_count (pool qf)"
proof -
  from drain_ok [OF assms]
  obtain q' fs' where r: "anam_queue_drain q = Some q'" "queue_inv q' [] fs' []"
    "pop_count q' = pop_count q + of_nat (length xs)"
    by blast
  have pinv: "pool_inv (pool q') fs' {head q'}"
    using r(2) by (simp add: queue_inv_def)
  have hL: "head q' \<in> {head q'}" by simp
  have nn: "head q' \<noteq> ANAM_NULL" by (rule pool_inv_live_nonnull [OF pinv hL])
  note pr = pool_inv_release [OF pinv hL]
  let ?pl = "snd (anam_release (pool q') (head q'))"
  have a: "slots_free ?pl = of_nat (length (decode_addr (head q') # fs'))"
    and b: "length (decode_addr (head q') # fs') + card ({head q'} - {head q'})
              = unat (slot_count ?pl)"
    using pr(2) unfolding pool_inv_def by blast+
  have "length (decode_addr (head q') # fs') = unat (slot_count ?pl)"
    using b by simp
  then have "slots_free ?pl = of_nat (unat (slot_count ?pl))"
    by (simp only: a)
  then have "slots_free ?pl = slot_count ?pl" by simp
  then show ?thesis
    using nn r(3) by (simp add: anam_queue_destroy_def r(1) anam_is_null_def)
qed

lemma create_loop_free_head:
  "0 < n \<Longrightarrow> free_head (anam_pool_create_loop n pl)
     = encode_handle 0 (slots_base pl) ANAM_STATE_FREE"
proof (induction n arbitrary: pl)
  case 0
  then show ?case by simp
next
  case (Suc n)
  show ?case
  proof (cases n)
    case 0
    then show ?thesis by (simp add: Let_def slot_from_index_def)
  next
    case (Suc m)
    then have "0 < n" by simp
    from Suc.IH [OF this] show ?thesis by (simp add: Let_def)
  qed
qed

lemma anam_pool_create_layout:
  assumes "anam_pool_create (Some cfg) calloc_ok mem raw = Some pl"
  defines "al \<equiv> (if cfg_alignment cfg = 0 then 8 else cfg_alignment cfg)"
  shows "slots_base pl = align_up (mem + sizeof_SlotHeader) al"
    and "slot_stride pl
           = align_up (align_up sizeof_SlotHeader al + align_up (cfg_slot_size cfg) al) 8"
    and "slot_count pl = cfg_slot_count cfg"
  using assms(1) unfolding anam_pool_create_def al_def
  by (auto simp: Let_def create_loop_fields split: if_splits)

lemma queue_create_layout:
  fixes q :: "'a::zero AnamQueue"
  assumes c: "anam_queue_create (Some cfg) q_calloc_ok pool_calloc_ok mem raw = Some q"
  shows "slots_base (pool q) = align_up (mem + sizeof_SlotHeader) 8"
    and "slot_stride (pool q)
           = align_up (align_up sizeof_SlotHeader 8
               + align_up ((sizeof_QueueNode + cfg_item_size cfg + 7) AND NOT 7) 8) 8"
    and "slot_count (pool q) = cfg_capacity cfg + 1"
proof -
  from c obtain cfg' ns pl0 dummy q1 where
    cfg: "cfg' = (case Some cfg of None \<Rightarrow> ANAM_QUEUE_DEFAULT | Some c \<Rightarrow> c)"
    and ns: "ns = (sizeof_QueueNode + cfg_item_size cfg' + 7) AND NOT 7"
    and pc: "anam_pool_create
       (Some \<lparr>cfg_slot_size = ns, cfg_slot_count = cfg_capacity cfg' + 1, cfg_alignment = 0,
              cfg_zero_on_alloc = False, cfg_zero_on_release = False\<rparr>)
       pool_calloc_ok mem raw = Some pl0"
    and an: "alloc_node \<lparr>item_size = cfg_item_size cfg', capacity = cfg_capacity cfg',
                 node_size = ns, pool = pl0, head = 0, tail = 0, qlength = 0,
                 push_count = 0, pop_count = 0, push_fails = 0, pop_fails = 0,
                 aba_prevented = 0\<rparr> None = (dummy, q1)"
    and q: "q = q1\<lparr>head := dummy, tail := dummy\<rparr>"
    by (rule anam_queue_create_Some)
  let ?q0 = "\<lparr>item_size = cfg_item_size cfg', capacity = cfg_capacity cfg',
                 node_size = ns, pool = pl0, head = 0, tail = 0, qlength = 0,
                 push_count = 0, pop_count = 0, push_fails = 0, pop_fails = 0,
                 aba_prevented = 0 :: 64 word\<rparr>"
  have q1: "q1 = snd (alloc_node ?q0 None)" by (simp only: an snd_conv)
  have c': "cfg' = cfg" by (simp add: cfg)
  note l = anam_pool_create_layout [OF pc]
  note al = alloc_node_layout [of ?q0 None, folded q1]
  show "slots_base (pool q) = align_up (mem + sizeof_SlotHeader) 8"
    using l(1) al(1) by (simp add: q)
  show "slot_stride (pool q)
           = align_up (align_up sizeof_SlotHeader 8
               + align_up ((sizeof_QueueNode + cfg_item_size cfg + 7) AND NOT 7) 8) 8"
    using l(2) al(2) by (simp only: q ns c') simp
  show "slot_count (pool q) = cfg_capacity cfg + 1"
    using l(3) al(3) by (simp add: q c')
qed

lemma test_queue_create:
  "anam_queue_create (Some test_queue_config) True True 0x1000 raw_zero = Some test_queue"
proof -
  have "anam_queue_create (Some test_queue_config) True True 0x1000 (raw_zero :: int QueueNode Memory)
          \<noteq> None"
    by (simp add: anam_queue_create_def test_queue_config_def anam_pool_create_def Let_def
        alloc_node_def anam_alloc_def split_beta create_loop_free_head create_loop_fields
        encode_live_props anam_is_null_def sizeof_QueueNode_def)
      (simp add: encode_handle_def align_up_def sizeof_SlotHeader_def ANAM_ADDR_MASK_def
        ANAM_STATE_FREE_def ANAM_NULL_def)
  then show ?thesis
    unfolding test_queue_def by (simp del: not_None_eq)
qed

lemma test_queue_platform_ok: "platform_ok (pool test_queue)"
  unfolding platform_ok_def
  by (simp add: queue_create_layout [OF test_queue_create] test_queue_config_def align_up_def
      sizeof_SlotHeader_def sizeof_QueueNode_def)

text \<open>
  Claim C6.  For a queue created with capacity 100, pushing any 100 items in order (the
  integers 0..99 of the test among them) succeeds for every push, each returning a
  non-null handle; 100 pops then all return true and deliver exactly the items pushed, in
  the order pushed; afterwards \<^verbatim>\<open>anam_queue_empty\<close> returns true.
\<close>

theorem queue_fifo_100:
  fixes q :: "'a::zero AnamQueue"
  assumes "anam_queue_create (Some cfg) q_calloc_ok pool_calloc_ok mem raw = Some q"
    and "cfg_capacity cfg = 100"
    and "platform_ok (pool q)"
    and "length xs = 100"
  shows "\<exists>hs q1 q2. push_all q xs = Some (hs, q1) \<and> length hs = 100
           \<and> (\<forall>h\<in>set hs. \<not> anam_is_null h)
           \<and> pop_n 100 q1 buf = Some (map (\<lambda>x. (True, x)) xs, q2)
           \<and> fst (anam_queue_empty q2)"
proof -
  note ci = queue_create_inv [OF assms(1,3)]
  have cap: "unat (capacity q) = 100" using ci(2) assms(2) by simp
  from ci(1) cap obtain fs where fs: "queue_inv q [] fs []" "length fs = 100" by auto
  have "length xs \<le> length fs" using assms(4) fs(2) by simp
  from push_all_ok [OF fs(1) this]
  obtain hs q1 where p: "push_all q xs = Some (hs, q1)" "length hs = length xs"
    "\<forall>h\<in>set hs. h \<noteq> ANAM_NULL" "queue_inv q1 ([] @ hs) (drop (length xs) fs) ([] @ xs)"
    by blast
  have inv1: "queue_inv q1 hs (drop (length xs) fs) xs" using p(4) by simp
  have "100 \<le> length xs" using assms(4) by simp
  from pop_n_ok [OF inv1 this, of buf]
  obtain q2 fs' where r: "pop_n 100 q1 buf = Some (map (\<lambda>x. (True, x)) (take 100 xs), q2)"
    "queue_inv q2 (drop 100 hs) fs' (drop 100 xs)"
    by blast
  have "fst (anam_queue_empty q2)"
    using queue_empty_iff [OF r(2)] assms(4) by simp
  then show ?thesis
    using p(1,2,3) r(1) assms(4) by (auto simp: anam_is_null_def)
qed

text \<open>
  Claim C7.  For a queue created with capacity \<open>C\<close>, \<open>C\<close> consecutive pushes each return
  a non-null handle, and the push after them returns the null handle and leaves the queue
  as it was but for \<open>push_fails\<close>, which grows by exactly one: contents, length and
  \<open>push_count\<close> are unchanged.
\<close>

theorem queue_push_capacity:
  fixes q :: "'a::zero AnamQueue"
  assumes "anam_queue_create config q_calloc_ok pool_calloc_ok mem raw = Some q"
    and "platform_ok (pool q)"
    and "length xs = unat (capacity q)"
  shows "capacity q = cfg_capacity (case config of None \<Rightarrow> ANAM_QUEUE_DEFAULT | Some c \<Rightarrow> c)
       \<and> (\<exists>hs q1. push_all q xs = Some (hs, q1) \<and> length hs = unat (capacity q)
           \<and> (\<forall>h\<in>set hs. \<not> anam_is_null h)
           \<and> (\<forall>x. anam_queue_push q1 (Some x)
                     = Some (ANAM_NULL, q1\<lparr>push_fails := push_fails q1 + 1\<rparr>)))"
proof -
  note ci = queue_create_inv [OF assms(1,2)]
  from ci(1) obtain fs where fs: "queue_inv q [] fs []" "length fs = unat (capacity q)" by auto
  have "length xs \<le> length fs" using assms(3) fs(2) by simp
  from push_all_ok [OF fs(1) this]
  obtain hs q1 where p: "push_all q xs = Some (hs, q1)" "length hs = length xs"
    "\<forall>h\<in>set hs. h \<noteq> ANAM_NULL" "queue_inv q1 ([] @ hs) (drop (length xs) fs) ([] @ xs)"
    by blast
  have "queue_inv q1 hs [] xs" using p(4) assms(3) fs(2) by simp
  then have "anam_queue_push q1 (Some x) = Some (ANAM_NULL, q1\<lparr>push_fails := push_fails q1 + 1\<rparr>)"
    for x by (rule queue_push_full)
  then show ?thesis
    using p(1,2,3) assms(3) ci(2) by (auto simp: anam_is_null_def)
qed

text \<open>
  Claim C10.  For every well-formed queue holding at least one item, \<^verbatim>\<open>anam_queue_pop\<close>
  with a \<^verbatim>\<open>NULL\<close> output pointer returns true, removes the front item, decrements the
  length and increments \<open>pop_count\<close>; it leaves the queue exactly as a pop into a buffer
  does, which also copies the front item.  \<^verbatim>\<open>anam_queue_destroy\<close> drains with such pops:
  it terminates, having popped every item and returned every node to the pool.
\<close>

theorem pop_null_buffer:
  fixes q :: "'a::zero AnamQueue"
  assumes "queue_holds q (x # xs)"
  shows "\<exists>q'. anam_queue_pop q None = Some (True, None, q') \<and> queue_holds q' xs
           \<and> qlength q' = qlength q - 1 \<and> pop_count q' = pop_count q + 1
           \<and> (\<forall>b. anam_queue_pop q (Some b) = Some (True, Some x, q'))
           \<and> (\<exists>qf. anam_queue_destroy q = Some qf
                 \<and> pop_count qf = pop_count q + of_nat (length (x # xs))
                 \<and> slots_free (pool qf) = slot_count (pool qf))"
proof -
  from assms obtain hs fs where inv: "queue_inv q hs fs (x # xs)"
    by (auto simp: queue_holds_def)
  have "length hs = length (x # xs)" using inv by (rule queue_inv_lengths)
  then obtain h1 hs' where hs: "hs = h1 # hs'" by (cases hs) auto
  let ?q' = "q\<lparr>head := h1, pool := snd (anam_release (pool q) (head q)),
                    qlength := qlength q - 1, pop_count := pop_count q + 1\<rparr>"
  note inv' = inv [unfolded hs]
  have a: "anam_queue_pop q None = Some (True, None, ?q')"
    using queue_pop_ok(1) [OF inv', of None] by simp
  have b: "anam_queue_pop q (Some b) = Some (True, Some x, ?q')" for b
    using queue_pop_ok(1) [OF inv', of "Some b"] by simp
  have c: "queue_holds ?q' xs"
    using queue_pop_ok(2) [OF inv'] unfolding queue_holds_def by blast
  from destroy_ok [OF inv] a b c show ?thesis
    by (intro exI [of _ ?q']) simp
qed

lemma test_queue_capacity: "capacity test_queue = 100"
  using queue_create_inv(2) [OF test_queue_create test_queue_platform_ok]
  by (simp add: test_queue_config_def)

theorem queue_fifo_100_witness:
  "anam_queue_create (Some test_queue_config) True True 0x1000 raw_zero = Some test_queue
   \<and> cfg_capacity test_queue_config = 100 \<and> platform_ok (pool test_queue)
   \<and> length (map int [0..<100]) = 100
   \<and> (\<exists>hs q1 q2. push_all test_queue (map int [0..<100]) = Some (hs, q1) \<and> length hs = 100
           \<and> (\<forall>h\<in>set hs. \<not> anam_is_null h)
           \<and> pop_n 100 q1 0 = Some (map (\<lambda>x. (True, x)) (map int [0..<100]), q2)
           \<and> fst (anam_queue_empty q2))"
proof -
  have c: "cfg_capacity test_queue_config = 100" by (simp add: test_queue_config_def)
  have l: "length (map int [0..<100]) = 100" by simp
  from test_queue_create c test_queue_platform_ok l
    queue_fifo_100 [OF test_queue_create c test_queue_platform_ok l, of 0]
  show ?thesis by (intro conjI)
qed

theorem queue_push_capacity_witness:
  "anam_queue_create (Some test_queue_config) True True 0x1000 raw_zero = Some test_queue
   \<and> platform_ok (pool test_queue)
   \<and> length (map int [0..<100]) = unat (capacity test_queue)
   \<and> (\<exists>hs q1. push_all test_queue (map int [0..<100]) = Some (hs, q1)
           \<and> length hs = unat (capacity test_queue)
           \<and> (\<forall>h\<in>set hs. \<not> anam_is_null h)
           \<and> (\<forall>x. anam_queue_push q1 (Some x)
                     = Some (ANAM_NULL, q1\<lparr>push_fails := push_fails q1 + 1\<rparr>)))"
proof -
  have l: "length (map int [0..<100]) = unat (capacity test_queue)"
    by (simp add: test_queue_capacity)
  from queue_push_capacity [OF test_queue_create test_queue_platform_ok l]
  have "\<exists>hs q1. push_all test_queue (map int [0..<100]) = Some (hs, q1)
           \<and> length hs = unat (capacity test_queue)
           \<and> (\<forall>h\<in>set hs. \<not> anam_is_null h)
           \<and> (\<forall>x. anam_queue_push q1 (Some x)
                     = Some (ANAM_NULL, q1\<lparr>push_fails := push_fails q1 + 1\<rparr>))"
    by (rule conjunct2)
  with test_queue_create test_queue_platform_ok l show ?thesis by (intro conjI)
qed

theorem pop_null_buffer_witness:
  "queue_holds (snd (the (push_all test_queue [7, 8]))) [7, 8]
   \<and> (\<exists>q'. anam_queue_pop (snd (the (push_all test_queue [7, 8]))) None = Some (True, None, q')
         \<and> queue_holds q' [8])"
proof -
  let ?Q = "snd (the (push_all test_queue [7, 8]))"
  from queue_create_inv(1) [OF test_queue_create test_queue_platform_ok]
  obtain fs where fs: "queue_inv test_queue [] fs []" "length fs = unat (capacity test_queue)"
    by auto
  have "length [7, 8 :: int] \<le> length fs" by (simp add: fs(2) test_queue_capacity)
  from push_all_ok [OF fs(1) this]
  obtain hs q1 where p: "push_all test_queue [7, 8] = Some (hs, q1)"
    "queue_inv q1 ([] @ hs) (drop (length [7, 8 :: int]) fs) ([] @ [7, 8])"
    by blast
  have h: "queue_holds ?Q [7, 8]"
    using p(2) unfolding queue_holds_def by (simp only: p(1) option.sel snd_conv) auto
  from pop_null_buffer [OF h] obtain q' where
    "anam_queue_pop ?Q None = Some (True, None, q')" "queue_holds q' [8]"
    by blast
  with h show ?thesis by blast
qed

end
